theory Spec2Isabelle
  imports Main "HOL-Library.Word" "HOL-Library.Signed_Division" "HOL-Library.Monad_Syntax"
begin

section \<open>Data model of the MPI game of life (08_mpi_gol/src/main.cpp)\<close>

text \<open>
  \<open>usize\<close> is \<open>std::size_t\<close>, a 64-bit unsigned integer whose arithmetic wraps; \<open>u8\<close> is
  one cell. The MPI rank and the communicator size are C++ \<open>int\<close>s, 32 bits wide: they
  are integers here, and where the source adds them the result is reduced to 32 bits in
  two's complement (\<open>int32\<close>); \<open>%\<close> on them is the truncating remainder \<open>smod\<close>. A
  conversion to \<open>usize\<close> reduces modulo \<open>2 ^ 64\<close>, a conversion to \<open>int\<close> keeps the low
  32 bits in two's complement.
\<close>

type_synonym usize = "64 word"
type_synonym u8 = "8 word"

datatype IDType = glider_id | random_id

record SimulationData =
  grid_size :: usize
  generations :: usize
  stats_every :: usize
  data_every :: usize
  random_seed :: usize
  id_type :: IDType

text \<open>The field \<open>size\<close> of the source is \<open>size'\<close> here (\<open>size\<close> is a constant of HOL).\<close>

record Partition =
  rank :: int
  size' :: int
  local_rows :: usize
  row_offset :: usize

definition INT_MAX :: int where
  "INT_MAX = 2 ^ 31 - 1"

text \<open>
  The value an \<open>int\<close> holds after an addition or subtraction whose exact result is \<open>k\<close>.
  Outside \<open>- 2 ^ 31 .. 2 ^ 31 - 1\<close> the source overflows, which the language leaves
  undefined; the wrap-around of the machine is written out.
\<close>

definition int32 :: "int \<Rightarrow> int" where
  "int32 k = signed_take_bit 31 k"

definition static_cast_usize :: "int \<Rightarrow> usize" where
  "static_cast_usize i = word_of_int i"

definition static_cast_int :: "nat \<Rightarrow> int" where
  "static_cast_int x = sint (word_of_nat x :: 32 word)"

text \<open>An \<open>int\<close> used as an index of an \<open>mdspan\<close> is converted to its index type \<open>size_t\<close>.\<close>

definition index_of_int :: "int \<Rightarrow> nat" where
  "index_of_int i = unat (word_of_int i :: usize)"

subsection \<open>The partitioner\<close>

text \<open>
  \<open>compute_partition\<close>, lines 40-53. The division by \<open>static_cast<usize>(size)\<close> is
  undefined in the source when \<open>size\<close> is 0 (HOL gives 0); \<open>MPI_Comm_size\<close> never
  reports fewer than one rank.
\<close>

definition compute_partition :: "SimulationData \<Rightarrow> int \<Rightarrow> int \<Rightarrow> Partition" where
  "compute_partition sd rnk sz =
     (let base = grid_size sd div static_cast_usize sz;
          rem = grid_size sd mod static_cast_usize sz;
          local = base + (if static_cast_usize rnk < rem then 1 else 0);
          offset = base * static_cast_usize rnk + min (static_cast_usize rnk) rem
      in \<lparr>rank = rnk, size' = sz, local_rows = local, row_offset = offset\<rparr>)"

text \<open>The contract of the partitioner as the specification words it, on natural numbers.\<close>

definition spec_local_rows :: "nat \<Rightarrow> nat \<Rightarrow> nat \<Rightarrow> nat" where
  "spec_local_rows n p r = n div p + (if r < n mod p then 1 else 0)"

definition spec_row_offset :: "nat \<Rightarrow> nat \<Rightarrow> nat \<Rightarrow> nat" where
  "spec_row_offset n p r = r * (n div p) + min r (n mod p)"

subsection \<open>Ring neighbours\<close>

text \<open>
  Lines 176-177: \<open>up = (rank - 1 + size) % size\<close> and \<open>down = (rank + 1) % size\<close>, in
  32-bit \<open>int\<close> arithmetic. For a rank below a size of at most \<open>2 ^ 30\<close> no sum leaves
  the range of \<open>int\<close>.
\<close>

definition up :: "int \<Rightarrow> int \<Rightarrow> int" where
  "up rnk sz = int32 (int32 (rnk - 1) + sz) smod sz"

definition down :: "int \<Rightarrow> int \<Rightarrow> int" where
  "down rnk sz = int32 (rnk + 1) smod sz"

subsection \<open>The MPI calls of one rank\<close>

text \<open>
  The calls a rank makes, in program order. A receive or a send names the row of
  \<open>grid_buf\<close> whose start is its buffer (the argument of \<open>row_ptr\<close>), the peer and the tag.
\<close>

datatype mpi_call =
    MPI_Init
  | MPI_Irecv usize int int
  | MPI_Isend usize int int
  | MPI_Waitall nat
  | MPI_Reduce
  | MPI_Barrier
  | MPI_Finalize

definition EXIT_SUCCESS :: int where
  "EXIT_SUCCESS = 0"

definition EXIT_FAILURE :: int where
  "EXIT_FAILURE = 1"

text \<open>Lines 187-202: the two receives and the two sends of one generation.\<close>

definition halo_requests :: "Partition \<Rightarrow> mpi_call list" where
  "halo_requests p =
     [MPI_Irecv 0 (up (rank p) (size' p)) 0,
      MPI_Irecv (local_rows p + 1) (down (rank p) (size' p)) 1,
      MPI_Isend (local_rows p) (down (rank p) (size' p)) 0,
      MPI_Isend 1 (up (rank p) (size' p)) 1]"

text \<open>
  One pass of the loop over generations, lines 180-297: the exchange, the wait, and the
  reduction of the live-cell count when \<open>step % stats_every == 0\<close> (undefined in the source
  for \<open>stats_every = 0\<close>).
\<close>

definition generation_calls :: "SimulationData \<Rightarrow> Partition \<Rightarrow> nat \<Rightarrow> mpi_call list" where
  "generation_calls sd p step =
     halo_requests p @ [MPI_Waitall 4] @
     (if (word_of_nat step :: usize) mod stats_every sd = 0 then [MPI_Reduce] else [])"

text \<open>
  \<open>main\<close>, lines 88-300, as the list of MPI calls of the rank and its exit status. The
  configuration \<open>sd\<close> is what \<open>parse_sim_data\<close> returned.
\<close>

definition main_calls :: "nat \<Rightarrow> SimulationData \<Rightarrow> int \<Rightarrow> int \<Rightarrow> mpi_call list \<times> int" where
  "main_calls argc sd rnk sz =
     (if argc \<noteq> 2 then ([MPI_Init], EXIT_FAILURE)
      else let p = compute_partition sd rnk sz in
        if local_rows p = 0 then ([MPI_Init, MPI_Barrier, MPI_Finalize], EXIT_SUCCESS)
        else (MPI_Init # concat (map (generation_calls sd p) [0..<unat (generations sd)])
                @ [MPI_Finalize], 0))"

text \<open>
  The matching rule of MPI point-to-point messages: a send posted by rank \<open>sender\<close>
  is taken by a receive posted by rank \<open>receiver\<close> when the send's destination is the
  receiver, the receive's source is the sender, and the tags agree.
\<close>

fun matches :: "int \<Rightarrow> mpi_call \<Rightarrow> int \<Rightarrow> mpi_call \<Rightarrow> bool" where
  "matches sender (MPI_Isend _ dst tag) receiver (MPI_Irecv _ src tag') =
     (dst = receiver \<and> src = sender \<and> tag = tag')"
| "matches _ _ _ _ = False"

subsection \<open>Grid storage\<close>

text \<open>
  A buffer is a \<open>std::vector<u8>\<close>; the \<open>mdspan\<close> over it has extents \<open>rows\<close> and \<open>cols\<close>
  and maps \<open>(r, c)\<close> to the offset \<open>r * cols + c\<close>. An access outside the extents or outside
  the vector is undefined in the source; here it is \<open>None\<close>.
\<close>

definition mdspan_offset :: "nat \<Rightarrow> nat \<Rightarrow> nat \<Rightarrow> nat" where
  "mdspan_offset cols r c = r * cols + c"

definition in_extents :: "nat \<Rightarrow> nat \<Rightarrow> nat \<Rightarrow> nat \<Rightarrow> bool" where
  "in_extents rows cols r c \<longleftrightarrow> r < rows \<and> c < cols"

definition mdspan_read :: "nat \<Rightarrow> nat \<Rightarrow> u8 list \<Rightarrow> nat \<Rightarrow> nat \<Rightarrow> u8 option" where
  "mdspan_read rows cols buf r c =
     (if in_extents rows cols r c \<and> mdspan_offset cols r c < length buf
      then Some (buf ! mdspan_offset cols r c) else None)"

definition mdspan_write :: "nat \<Rightarrow> nat \<Rightarrow> u8 list \<Rightarrow> nat \<Rightarrow> nat \<Rightarrow> u8 \<Rightarrow> u8 list option" where
  "mdspan_write rows cols buf r c v =
     (if in_extents rows cols r c \<and> mdspan_offset cols r c < length buf
      then Some (buf[mdspan_offset cols r c := v]) else None)"

text \<open>A \<open>for\<close> loop over the indices \<open>is\<close> whose body may be undefined.\<close>

fun for_each :: "(nat \<Rightarrow> 's \<Rightarrow> 's option) \<Rightarrow> nat list \<Rightarrow> 's \<Rightarrow> 's option" where
  "for_each body [] s = Some s"
| "for_each body (i # is) s =
     (case body i s of None \<Rightarrow> None | Some s' \<Rightarrow> for_each body is s')"

definition rows_with_halo :: "Partition \<Rightarrow> usize" where
  "rows_with_halo p = local_rows p + 2"

text \<open>Lines 132-134: a vector of \<open>rows_with_halo * grid_size\<close> cells, all zero.\<close>

definition allocate :: "SimulationData \<Rightarrow> Partition \<Rightarrow> u8 list" where
  "allocate sd p = replicate (unat (rows_with_halo p * grid_size sd)) 0"

text \<open>Lines 159-172: the nine assignments of the glider case, in program order.\<close>

definition glider_writes :: "(nat \<times> nat \<times> u8) list" where
  "glider_writes =
     [(1, 0, 0), (1, 1, 1), (1, 2, 0),
      (2, 0, 0), (2, 1, 0), (2, 2, 1),
      (3, 0, 1), (3, 1, 1), (3, 2, 1)]"

fun write_all :: "nat \<Rightarrow> nat \<Rightarrow> (nat \<times> nat \<times> u8) list \<Rightarrow> u8 list \<Rightarrow> u8 list option" where
  "write_all rows cols [] buf = Some buf"
| "write_all rows cols ((r, c, v) # ws) buf =
     (case mdspan_write rows cols buf r c v of
        None \<Rightarrow> None
      | Some buf' \<Rightarrow> write_all rows cols ws buf')"

text \<open>
  Lines 145-173. The random case draws one bit per owned cell from a generator seeded
  with \<open>random_seed + rank\<close>; \<open>draws k\<close> is its \<open>k\<close>-th bit.
\<close>

definition random_writes :: "nat \<Rightarrow> nat \<Rightarrow> (nat \<Rightarrow> bool) \<Rightarrow> (nat \<times> nat \<times> u8) list" where
  "random_writes lr cols draws =
     concat (map (\<lambda>r. map (\<lambda>c. (r, c, of_bool (draws ((r - 1) * cols + c)))) [0..<cols])
       [1..<lr + 1])"

definition initialize ::
  "SimulationData \<Rightarrow> Partition \<Rightarrow> (nat \<Rightarrow> bool) \<Rightarrow> u8 list \<Rightarrow> u8 list option" where
  "initialize sd p draws grid =
     (let rows = unat (rows_with_halo p); cols = unat (grid_size sd) in
      case id_type sd of
        random_id \<Rightarrow> write_all rows cols (random_writes (unat (local_rows p)) cols draws) grid
      | glider_id \<Rightarrow> write_all rows cols glider_writes grid)"

subsection \<open>The stencil update\<close>

text \<open>Lines 241-247: the rule, from the cell and the sum of its eight neighbours.\<close>

definition next_state :: "u8 \<Rightarrow> int \<Rightarrow> u8" where
  "next_state cur nsum =
     (if cur = 1 then (if nsum = 2 \<or> nsum = 3 then 1 else 0)
      else (if nsum = 3 then 1 else 0))"

text \<open>
  Lines 221-247 for one cell. \<open>left\<close> and \<open>right\<close> are \<open>int\<close>s in the source; \<open>nsum\<close> is an
  \<open>int\<close> that adds eight cells, at most \<open>8 * 255\<close>.
\<close>

definition update_cell :: "nat \<Rightarrow> nat \<Rightarrow> u8 list \<Rightarrow> nat \<Rightarrow> nat \<Rightarrow> u8 option" where
  "update_cell rows cols grid r c =
     (let left = (if c = 0 then static_cast_int (cols - 1) else static_cast_int (c - 1));
          right = (if c + 1 = cols then 0 else static_cast_int (c + 1))
      in
        do {
          a \<leftarrow> mdspan_read rows cols grid (r - 1) (index_of_int left);
          b \<leftarrow> mdspan_read rows cols grid (r - 1) c;
          d \<leftarrow> mdspan_read rows cols grid (r - 1) (index_of_int right);
          e \<leftarrow> mdspan_read rows cols grid r (index_of_int left);
          f \<leftarrow> mdspan_read rows cols grid r (index_of_int right);
          g \<leftarrow> mdspan_read rows cols grid (r + 1) (index_of_int left);
          h \<leftarrow> mdspan_read rows cols grid (r + 1) c;
          i \<leftarrow> mdspan_read rows cols grid (r + 1) (index_of_int right);
          cur \<leftarrow> mdspan_read rows cols grid r c;
          Some (next_state cur
                 (0 + uint a + uint b + uint d + uint e + uint f + uint g + uint h + uint i))
        })"

text \<open>
  Lines 218-251: the two loops, \<open>r\<close> from 1 to \<open>local_rows\<close> and \<open>c\<close> from 0 to
  \<open>grid_size - 1\<close>, each iteration storing one cell of \<open>next_grid\<close>.
\<close>

definition store_cell :: "nat \<Rightarrow> nat \<Rightarrow> u8 list \<Rightarrow> nat \<Rightarrow> nat \<Rightarrow> u8 list \<Rightarrow> u8 list option" where
  "store_cell rows cols grid r c nxt =
     (case update_cell rows cols grid r c of
        None \<Rightarrow> None
      | Some v \<Rightarrow> mdspan_write rows cols nxt r c v)"

definition stencil_update :: "nat \<Rightarrow> nat \<Rightarrow> u8 list \<Rightarrow> u8 list \<Rightarrow> u8 list option" where
  "stencil_update lr cols grid nxt =
     for_each (\<lambda>r. for_each (store_cell (lr + 2) cols grid r) [0..<cols]) [1..<lr + 1] nxt"

subsection \<open>Workers and generations\<close>

record worker =
  part :: Partition
  grid_buf :: "u8 list"
  next_buf :: "u8 list"

definition compute_phase :: "SimulationData \<Rightarrow> worker \<Rightarrow> worker option" where
  "compute_phase sd w =
     (case stencil_update (unat (local_rows (part w))) (unat (grid_size sd))
             (grid_buf w) (next_buf w) of
        None \<Rightarrow> None
      | Some nxt \<Rightarrow> Some (w\<lparr>next_buf := nxt\<rparr>))"

text \<open>Line 292: \<open>std::swap(grid_buf, next_buf)\<close>.\<close>

definition swap_buffers :: "worker \<Rightarrow> worker" where
  "swap_buffers w = w\<lparr>grid_buf := next_buf w, next_buf := grid_buf w\<rparr>"

text \<open>Lines 62-64: \<open>row_ptr\<close>, as the offset of the row in the buffer.\<close>

definition row_ptr :: "SimulationData \<Rightarrow> usize \<Rightarrow> nat" where
  "row_ptr sd r = unat (r * grid_size sd)"

text \<open>
  The \<open>static_cast<int>(grid_size)\<close> cells that a send reads from, and a receive writes
  to, the buffer at \<open>row_ptr\<close>.
\<close>

definition message_count :: "SimulationData \<Rightarrow> nat" where
  "message_count sd = nat (static_cast_int (unat (grid_size sd)))"

definition read_row :: "SimulationData \<Rightarrow> u8 list \<Rightarrow> usize \<Rightarrow> u8 list option" where
  "read_row sd buf r =
     (if row_ptr sd r + message_count sd \<le> length buf
      then Some (take (message_count sd) (drop (row_ptr sd r) buf)) else None)"

definition write_row :: "SimulationData \<Rightarrow> u8 list \<Rightarrow> usize \<Rightarrow> u8 list \<Rightarrow> u8 list option" where
  "write_row sd buf r cells =
     (if row_ptr sd r + message_count sd \<le> length buf \<and> length cells = message_count sd
      then Some (take (row_ptr sd r) buf @ cells @ drop (row_ptr sd r + message_count sd) buf)
      else None)"

text \<open>
  A rank whose partition is empty has left \<open>main\<close> at line 122 and posts nothing; the
  others post \<open>halo_requests\<close>.
\<close>

definition posted :: "worker \<Rightarrow> mpi_call list" where
  "posted w = (if local_rows (part w) = 0 then [] else halo_requests (part w))"

text \<open>
  The halo exchange of one generation over all ranks (the worker at position \<open>i\<close> of the
  list is rank \<open>i\<close>). Each receive of a rank takes the cells of the first matching send
  of its source; when there is none the rank waits for ever in \<open>MPI_Waitall\<close>, which is
  \<open>None\<close>.
\<close>

fun receive_all ::
  "SimulationData \<Rightarrow> worker list \<Rightarrow> int \<Rightarrow> mpi_call list \<Rightarrow> u8 list \<Rightarrow> u8 list option" where
  "receive_all sd ws me [] buf = Some buf"
| "receive_all sd ws me (MPI_Irecv r src tag # cs) buf =
     (if 0 \<le> src \<and> nat src < length ws then
        (case find (\<lambda>s. matches src s me (MPI_Irecv r src tag)) (posted (ws ! nat src)) of
           Some (MPI_Isend r' _ _) \<Rightarrow>
             (case read_row sd (grid_buf (ws ! nat src)) r' of
                None \<Rightarrow> None
              | Some cells \<Rightarrow>
                 (case write_row sd buf r cells of
                    None \<Rightarrow> None
                  | Some buf' \<Rightarrow> receive_all sd ws me cs buf'))
         | _ \<Rightarrow> None)
      else None)"
| "receive_all sd ws me (_ # cs) buf = receive_all sd ws me cs buf"

definition exchange_worker :: "SimulationData \<Rightarrow> worker list \<Rightarrow> worker \<Rightarrow> worker option" where
  "exchange_worker sd ws w =
     (case receive_all sd ws (rank (part w)) (posted w) (grid_buf w) of
        None \<Rightarrow> None
      | Some buf \<Rightarrow> Some (w\<lparr>grid_buf := buf\<rparr>))"

text \<open>
  One pass of the loop body for a rank that is in the loop: exchange, compute, swap.
  The diagnostics and the snapshot only read the buffers.
\<close>

definition generation_worker :: "SimulationData \<Rightarrow> worker list \<Rightarrow> worker \<Rightarrow> worker option" where
  "generation_worker sd ws w =
     (if local_rows (part w) = 0 then Some w
      else case exchange_worker sd ws w of
             None \<Rightarrow> None
           | Some w' \<Rightarrow> map_option swap_buffers (compute_phase sd w'))"

definition generation :: "SimulationData \<Rightarrow> worker list \<Rightarrow> worker list option" where
  "generation sd ws = those (map (generation_worker sd ws) ws)"

fun run :: "SimulationData \<Rightarrow> nat \<Rightarrow> worker list \<Rightarrow> worker list option" where
  "run sd 0 ws = Some ws"
| "run sd (Suc k) ws = (case generation sd ws of None \<Rightarrow> None | Some ws' \<Rightarrow> run sd k ws')"

text \<open>Lines 110-173 for one rank: partition, allocation, initialisation.\<close>

definition start_rank :: "SimulationData \<Rightarrow> (nat \<Rightarrow> bool) \<Rightarrow> int \<Rightarrow> int \<Rightarrow> worker option" where
  "start_rank sd draws rnk sz =
     (let p = compute_partition sd rnk sz in
      if local_rows p = 0
      then Some \<lparr>part = p, grid_buf = [], next_buf = []\<rparr>
      else case initialize sd p draws (allocate sd p) of
             None \<Rightarrow> None
           | Some g \<Rightarrow> Some \<lparr>part = p, grid_buf = g, next_buf = allocate sd p\<rparr>)"

text \<open>All ranks of a communicator of \<open>sz\<close> ranks, after their initialisation.\<close>

definition start_all :: "SimulationData \<Rightarrow> (nat \<Rightarrow> bool) \<Rightarrow> int \<Rightarrow> worker list option" where
  "start_all sd draws sz = those (map (\<lambda>r. start_rank sd draws (int r) sz) [0..<nat sz])"

text \<open>The cell of global row \<open>r\<close> (from 0) and column \<open>c\<close> owned by a worker that owns all rows.\<close>

definition owned_cell :: "SimulationData \<Rightarrow> worker \<Rightarrow> nat \<Rightarrow> nat \<Rightarrow> u8" where
  "owned_cell sd w r c = grid_buf w ! mdspan_offset (unat (grid_size sd)) (r + 1) c"

text \<open>The default member initialisers of \<open>SimulationData\<close>, lines 23-30.\<close>

definition default_SimulationData :: SimulationData where
  "default_SimulationData =
     \<lparr>grid_size = 32, generations = 32, stats_every = 1, data_every = 1,
      random_seed = 64, id_type = random_id\<rparr>"

subsection \<open>The stencil rule in the words of the specification\<close>

text \<open>
  The left neighbour column is \<open>n - 1\<close> when \<open>c = 0\<close> and \<open>c - 1\<close> otherwise, the right
  one is 0 when \<open>c = n - 1\<close> and \<open>c + 1\<close> otherwise; the neighbour sum adds the eight cells
  around \<open>(r, c)\<close> of the buffer with its halo rows.
\<close>

definition spec_left :: "nat \<Rightarrow> nat \<Rightarrow> nat" where
  "spec_left n c = (if c = 0 then n - 1 else c - 1)"

definition spec_right :: "nat \<Rightarrow> nat \<Rightarrow> nat" where
  "spec_right n c = (if c = n - 1 then 0 else c + 1)"

definition cell_at :: "nat \<Rightarrow> u8 list \<Rightarrow> nat \<Rightarrow> nat \<Rightarrow> u8" where
  "cell_at n buf r c = buf ! mdspan_offset n r c"

definition neighbour_sum :: "nat \<Rightarrow> u8 list \<Rightarrow> nat \<Rightarrow> nat \<Rightarrow> int" where
  "neighbour_sum n buf r c =
     uint (cell_at n buf (r - 1) (spec_left n c)) + uint (cell_at n buf (r - 1) c) +
     uint (cell_at n buf (r - 1) (spec_right n c)) +
     uint (cell_at n buf r (spec_left n c)) + uint (cell_at n buf r (spec_right n c)) +
     uint (cell_at n buf (r + 1) (spec_left n c)) + uint (cell_at n buf (r + 1) c) +
     uint (cell_at n buf (r + 1) (spec_right n c))"

subsection \<open>The game of life on the whole grid\<close>

text \<open>
  One generation of the rule on an \<open>n\<close> by \<open>n\<close> grid that is periodic in both directions,
  a grid being a function from row and column to the cell; and the grid whose live cells
  are those of a list.
\<close>

definition torus_sum :: "nat \<Rightarrow> (nat \<Rightarrow> nat \<Rightarrow> u8) \<Rightarrow> nat \<Rightarrow> nat \<Rightarrow> int" where
  "torus_sum n f r c =
     uint (f (spec_left n r) (spec_left n c)) + uint (f (spec_left n r) c) +
     uint (f (spec_left n r) (spec_right n c)) +
     uint (f r (spec_left n c)) + uint (f r (spec_right n c)) +
     uint (f (spec_right n r) (spec_left n c)) + uint (f (spec_right n r) c) +
     uint (f (spec_right n r) (spec_right n c))"

definition life_step :: "nat \<Rightarrow> (nat \<Rightarrow> nat \<Rightarrow> u8) \<Rightarrow> nat \<Rightarrow> nat \<Rightarrow> u8" where
  "life_step n f r c = next_state (f r c) (torus_sum n f r c)"

definition pattern :: "(nat \<times> nat) list \<Rightarrow> nat \<Rightarrow> nat \<Rightarrow> u8" where
  "pattern cells r c = (if (r, c) \<in> set cells then 1 else 0)"

text \<open>
  The live cells of the glider of lines 159-172 (phase 0, in global rows and columns) and
  of the four generations that follow it.
\<close>

definition glider_phase :: "nat \<Rightarrow> (nat \<times> nat) list" where
  "glider_phase k =
     (if k = 0 then [(0, 1), (1, 2), (2, 0), (2, 1), (2, 2)]
      else if k = 1 then [(1, 0), (1, 2), (2, 1), (2, 2), (3, 1)]
      else if k = 2 then [(1, 2), (2, 0), (2, 2), (3, 1), (3, 2)]
      else if k = 3 then [(1, 1), (2, 2), (2, 3), (3, 1), (3, 2)]
      else [(1, 2), (2, 3), (3, 1), (3, 2), (3, 3)])"

text \<open>A configuration that selects the glider, and a generator whose bits are all 0.\<close>

definition glider_config :: "usize \<Rightarrow> SimulationData" where
  "glider_config n = default_SimulationData\<lparr>grid_size := n, id_type := glider_id\<rparr>"

definition no_draws :: "nat \<Rightarrow> bool" where
  "no_draws k = False"

text \<open>
  Rank 0 of three ranks on a grid of size 3 (one owned row between its two halo rows),
  with a column of live cells at column 2 and marked halo rows in the next buffer.
\<close>

definition example_worker :: worker where
  "example_worker =
     \<lparr>part = compute_partition (default_SimulationData\<lparr>grid_size := 3\<rparr>) 0 3,
      grid_buf = [0, 0, 1,  0, 0, 1,  0, 0, 1],
      next_buf = [7, 7, 7,  0, 0, 0,  9, 9, 9]\<rparr>"

section \<open>Conversions\<close>

lemma unat_static_cast_usize:
  assumes "0 \<le> i" "i \<le> INT_MAX"
  shows "unat (static_cast_usize i) = nat i"
proof -
  have "i < 2 ^ 64" using assms by (simp add: INT_MAX_def)
  then have "take_bit 64 i = i" using assms by (simp add: take_bit_int_eq_self)
  then show ?thesis
    by (simp add: static_cast_usize_def unat_eq_nat_uint uint_word_of_int_eq)
qed

section \<open>The partitioner\<close>

lemma partition_nat:
  fixes sd :: SimulationData
  assumes "0 \<le> r" "r < p" "p \<le> INT_MAX"
  defines "n \<equiv> unat (grid_size sd)"
  shows "unat (local_rows (compute_partition sd r p)) = spec_local_rows n (nat p) (nat r)"
    and "unat (row_offset (compute_partition sd r p)) = spec_row_offset n (nat p) (nat r)"
proof -
  let ?P = "static_cast_usize p" and ?R = "static_cast_usize r"
  have up: "unat ?P = nat p" and ur: "unat ?R = nat r"
    using assms by (simp_all add: unat_static_cast_usize)
  have ppos: "0 < nat p" using assms by simp
  have nlt: "n < 2 ^ 64"
    unfolding n_def using unsigned_less [of "grid_size sd", where 'a=nat] by simp
  have base: "unat (grid_size sd div ?P) = n div nat p"
    by (simp add: unat_div up n_def)
  have rem: "unat (grid_size sd mod ?P) = n mod nat p"
    by (simp add: unat_mod up n_def)
  have lt: "(?R < grid_size sd mod ?P) = (nat r < n mod nat p)"
    by (simp add: word_less_nat_alt ur rem)
  have decomp: "nat p * (n div nat p) + n mod nat p = n" by simp
  have b1: "n div nat p + 1 \<le> n" if a: "nat r < n mod nat p"
  proof -
    have "1 * (n div nat p) \<le> nat p * (n div nat p)"
      using ppos by (intro mult_le_mono1) simp
    then have "n div nat p \<le> nat p * (n div nat p)" by simp
    then show ?thesis using decomp a by linarith
  qed
  show "unat (local_rows (compute_partition sd r p)) = spec_local_rows n (nat p) (nat r)"
  proof (cases "nat r < n mod nat p")
    case True
    then have "unat (grid_size sd div ?P) + unat (1 :: usize) < 2 ^ 64"
      using b1 nlt base by simp
    then have "unat (grid_size sd div ?P + 1) = n div nat p + 1"
      using base by (simp add: unat_add_lem [THEN iffD1])
    then show ?thesis
      using True lt by (simp add: compute_partition_def Let_def spec_local_rows_def)
  next
    case False
    then show ?thesis
      using lt base by (simp add: compute_partition_def Let_def spec_local_rows_def)
  qed
  have rle: "nat r * (n div nat p) \<le> nat p * (n div nat p)"
  proof -
    have "nat r \<le> nat p" using assms(1,2) by simp
    then show ?thesis by (rule mult_le_mono1)
  qed
  have m1: "unat (grid_size sd div ?P * ?R) = nat r * (n div nat p)"
  proof -
    have "nat p * (n div nat p) \<le> n" by simp
    then have "nat r * (n div nat p) \<le> n" using rle by (rule order_trans [rotated])
    then have "(n div nat p) * nat r < 2 ^ 64" using nlt by (simp add: mult.commute)
    then have "unat (grid_size sd div ?P) * unat ?R < 2 ^ 64"
      unfolding base ur .
    then have "unat (grid_size sd div ?P * ?R) = unat (grid_size sd div ?P) * unat ?R"
      using unat_mult_lem [of "grid_size sd div ?P" ?R] by simp
    then show ?thesis unfolding base ur by (simp add: mult.commute)
  qed
  have mn: "unat (min ?R (grid_size sd mod ?P)) = min (nat r) (n mod nat p)"
    using lt ur rem by (simp add: min_def word_le_nat_alt)
  have tot: "nat r * (n div nat p) + min (nat r) (n mod nat p) \<le> n"
  proof -
    have "min (nat r) (n mod nat p) \<le> n mod nat p" by simp
    then show ?thesis using rle decomp by linarith
  qed
  have "unat (grid_size sd div ?P * ?R + min ?R (grid_size sd mod ?P)) =
          nat r * (n div nat p) + min (nat r) (n mod nat p)"
  proof -
    have "unat (grid_size sd div ?P * ?R) + unat (min ?R (grid_size sd mod ?P)) < 2 ^ 64"
      using m1 mn tot nlt by simp
    then show ?thesis using m1 mn by (simp add: unat_add_lem [THEN iffD1])
  qed
  then show "unat (row_offset (compute_partition sd r p)) = spec_row_offset n (nat p) (nat r)"
    by (simp add: compute_partition_def Let_def spec_row_offset_def)
qed

lemma offset_step:
  "Suc r * d + min (Suc r) m = r * d + min r m + (d + (if r < m then 1 else 0))"
  for r d m :: nat
  by (simp add: min_def)

lemma spec_row_offset_Suc:
  "spec_row_offset n p (Suc r) = spec_row_offset n p r + spec_local_rows n p r"
  unfolding spec_row_offset_def spec_local_rows_def by (rule offset_step)

lemma spec_local_rows_sum:
  "(\<Sum>r = 0..<k. spec_local_rows n p r) = spec_row_offset n p k"
proof (induction k)
  case 0
  show ?case unfolding spec_row_offset_def by simp
next
  case (Suc k)
  have "(\<Sum>r = 0..<Suc k. spec_local_rows n p r) =
          (\<Sum>r = 0..<k. spec_local_rows n p r) + spec_local_rows n p k"
    by simp
  then show ?case unfolding Suc.IH spec_row_offset_Suc .
qed

lemma spec_row_offset_total:
  assumes "0 < p"
  shows "spec_row_offset n p p = n"
proof -
  have "n mod p < p" using assms by simp
  then have "min p (n mod p) = n mod p" by simp
  then show ?thesis by (simp add: spec_row_offset_def)
qed

lemma spec_row_offset_mono:
  assumes "r \<le> s"
  shows "spec_row_offset n p r \<le> spec_row_offset n p s"
proof -
  have "r * (n div p) \<le> s * (n div p)" using assms by (rule mult_le_mono1)
  moreover have "min r (n mod p) \<le> min s (n mod p)" using assms by simp
  ultimately show ?thesis unfolding spec_row_offset_def by (rule add_mono)
qed

lemma spec_ranges_disjoint:
  assumes "r < s"
  shows "{spec_row_offset n p r ..< spec_row_offset n p r + spec_local_rows n p r} \<inter>
         {spec_row_offset n p s ..< spec_row_offset n p s + spec_local_rows n p s} = {}"
proof -
  have "spec_row_offset n p (Suc r) \<le> spec_row_offset n p s"
    using assms by (intro spec_row_offset_mono) simp
  then have "spec_row_offset n p r + spec_local_rows n p r \<le> spec_row_offset n p s"
    by (simp add: spec_row_offset_Suc)
  then show ?thesis by auto
qed

text \<open>
  C2. For a worker index \<open>r\<close> with \<open>0 \<le> r < p\<close> the partitioner returns
  \<open>local_rows = n / p + (1 if r < n % p else 0)\<close> and
  \<open>row_offset = r * (n / p) + min (r, n % p)\<close>, where \<open>n\<close> is the grid size; the 64-bit
  arithmetic of the code never wraps on the way. The result depends on the configuration
  through \<open>grid_size\<close> only, so that equal inputs give equal outputs.
\<close>

theorem compute_partition_contract:
  fixes sd :: SimulationData
  assumes "0 \<le> r" "r < p" "p \<le> INT_MAX"
  shows "unat (local_rows (compute_partition sd r p)) =
           unat (grid_size sd) div nat p + (if nat r < unat (grid_size sd) mod nat p then 1 else 0)
       \<and> unat (row_offset (compute_partition sd r p)) =
           nat r * (unat (grid_size sd) div nat p) + min (nat r) (unat (grid_size sd) mod nat p)
       \<and> rank (compute_partition sd r p) = r \<and> size' (compute_partition sd r p) = p
       \<and> (\<forall>sd'. grid_size sd' = grid_size sd \<longrightarrow>
             compute_partition sd' r p = compute_partition sd r p)"
proof -
  have "unat (local_rows (compute_partition sd r p)) =
          spec_local_rows (unat (grid_size sd)) (nat p) (nat r)"
    using assms by (rule partition_nat(1))
  moreover have "unat (row_offset (compute_partition sd r p)) =
          spec_row_offset (unat (grid_size sd)) (nat p) (nat r)"
    using assms by (rule partition_nat(2))
  moreover have "rank (compute_partition sd r p) = r \<and> size' (compute_partition sd r p) = p"
    by (simp add: compute_partition_def Let_def)
  moreover have "\<forall>sd'. grid_size sd' = grid_size sd \<longrightarrow>
             compute_partition sd' r p = compute_partition sd r p"
    by (simp add: compute_partition_def)
  ultimately show ?thesis
    unfolding spec_local_rows_def spec_row_offset_def by blast
qed

theorem compute_partition_contract_witness:
  "(0::int) \<le> 2 \<and> (2::int) < 3 \<and> 3 \<le> INT_MAX
   \<and> unat (local_rows (compute_partition (default_SimulationData\<lparr>grid_size := 8\<rparr>) 2 3)) = 2
   \<and> unat (row_offset (compute_partition (default_SimulationData\<lparr>grid_size := 8\<rparr>) 2 3)) = 6"
proof -
  let ?sd = "default_SimulationData\<lparr>grid_size := 8\<rparr>"
  have h: "(0::int) \<le> 2" "(2::int) < 3" "3 \<le> INT_MAX" by (simp_all add: INT_MAX_def)
  have "unat (local_rows (compute_partition ?sd 2 3)) =
          unat (grid_size ?sd) div nat 3 + (if nat 2 < unat (grid_size ?sd) mod nat 3 then 1 else 0)"
    and "unat (row_offset (compute_partition ?sd 2 3)) =
          nat 2 * (unat (grid_size ?sd) div nat 3) + min (nat 2) (unat (grid_size ?sd) mod nat 3)"
    using compute_partition_contract [OF h, of ?sd] by blast+
  then show ?thesis using h by simp
qed

text \<open>
  C3. For \<open>p \<ge> 1\<close> workers the numbers of rows of workers \<open>0 .. p - 1\<close> add up to the grid
  size, the first range starts at row 0, each next worker's range starts where the
  previous one ends, and the ranges of two distinct workers do not overlap.
\<close>

theorem partition_covers_grid:
  fixes sd :: SimulationData
  assumes "1 \<le> p" "p \<le> INT_MAX"
  shows "(\<Sum>r = 0..<nat p. unat (local_rows (compute_partition sd (int r) p))) =
           unat (grid_size sd)
       \<and> unat (row_offset (compute_partition sd 0 p)) = 0
       \<and> (\<forall>r. 0 \<le> r \<and> r + 1 < p \<longrightarrow>
             unat (row_offset (compute_partition sd (r + 1) p)) =
               unat (row_offset (compute_partition sd r p)) +
               unat (local_rows (compute_partition sd r p)))
       \<and> (\<forall>r s. 0 \<le> r \<and> r < p \<and> 0 \<le> s \<and> s < p \<and> r \<noteq> s \<longrightarrow>
             {unat (row_offset (compute_partition sd r p)) ..<
                unat (row_offset (compute_partition sd r p)) +
                unat (local_rows (compute_partition sd r p))} \<inter>
             {unat (row_offset (compute_partition sd s p)) ..<
                unat (row_offset (compute_partition sd s p)) +
                unat (local_rows (compute_partition sd s p))} = {})"
proof -
  let ?n = "unat (grid_size sd)"
  let ?L = "\<lambda>r. unat (local_rows (compute_partition sd r p))"
  let ?O = "\<lambda>r. unat (row_offset (compute_partition sd r p))"
  have L: "?L r = spec_local_rows ?n (nat p) (nat r)" if "0 \<le> r" "r < p" for r
    using that assms(2) by (rule partition_nat(1))
  have O: "?O r = spec_row_offset ?n (nat p) (nat r)" if "0 \<le> r" "r < p" for r
    using that assms(2) by (rule partition_nat(2))
  have "(\<Sum>r = 0..<nat p. ?L (int r)) = (\<Sum>r = 0..<nat p. spec_local_rows ?n (nat p) r)"
    by (rule sum.cong) (simp_all add: L)
  also have "\<dots> = spec_row_offset ?n (nat p) (nat p)" by (rule spec_local_rows_sum)
  also have "\<dots> = ?n" using assms(1) by (intro spec_row_offset_total) simp
  finally have total: "(\<Sum>r = 0..<nat p. ?L (int r)) = ?n" .
  have first: "?O 0 = 0" using assms(1) by (simp add: O spec_row_offset_def)
  have contiguous: "?O (r + 1) = ?O r + ?L r" if "0 \<le> r" "r + 1 < p" for r
  proof -
    have "nat (r + 1) = Suc (nat r)" using that by simp
    then show ?thesis using that by (simp add: O L spec_row_offset_Suc)
  qed
  have disjoint: "{?O r ..< ?O r + ?L r} \<inter> {?O s ..< ?O s + ?L s} = {}"
    if "0 \<le> r" "r < p" "0 \<le> s" "s < p" "r \<noteq> s" for r s
  proof (cases "r < s")
    case True
    then have "nat r < nat s" using that by simp
    then show ?thesis
      unfolding O [OF that(1,2)] O [OF that(3,4)] L [OF that(1,2)] L [OF that(3,4)]
      by (rule spec_ranges_disjoint)
  next
    case False
    then have "nat s < nat r" using that by simp
    then have "{?O s ..< ?O s + ?L s} \<inter> {?O r ..< ?O r + ?L r} = {}"
      unfolding O [OF that(1,2)] O [OF that(3,4)] L [OF that(1,2)] L [OF that(3,4)]
      by (rule spec_ranges_disjoint)
    then show ?thesis by (simp only: Int_commute)
  qed
  show ?thesis using total first contiguous disjoint by blast
qed

theorem partition_covers_grid_witness:
  "(1::int) \<le> 3 \<and> 3 \<le> INT_MAX
   \<and> (\<Sum>r = 0..<nat 3.
        unat (local_rows (compute_partition (default_SimulationData\<lparr>grid_size := 8\<rparr>) (int r) 3))) = 8
   \<and> unat (row_offset (compute_partition (default_SimulationData\<lparr>grid_size := 8\<rparr>) 0 3)) = 0"
proof -
  have h: "(1::int) \<le> 3" "3 \<le> INT_MAX" by (simp_all add: INT_MAX_def)
  have "(\<Sum>r = 0..<nat 3.
        unat (local_rows (compute_partition (default_SimulationData\<lparr>grid_size := 8\<rparr>) (int r) 3))) =
        unat (grid_size (default_SimulationData\<lparr>grid_size := 8\<rparr>))"
    and "unat (row_offset (compute_partition (default_SimulationData\<lparr>grid_size := 8\<rparr>) 0 3)) = 0"
    using partition_covers_grid [OF h, of "default_SimulationData\<lparr>grid_size := 8\<rparr>"]
    by blast+
  then show ?thesis using h by simp
qed

section \<open>The ring of ranks\<close>

lemma smod_nonneg:
  fixes a b :: int
  assumes "0 \<le> a" "0 < b"
  shows "a smod b = a mod b"
proof (cases "a = 0")
  case True
  then show ?thesis by simp
next
  case False
  then have "sgn a = 1" using assms(1) by simp
  then show ?thesis using assms by (simp add: smod_int_alt_def)
qed

lemma int32_id:
  assumes "- (2 ^ 31) \<le> k" "k < 2 ^ 31"
  shows "int32 k = k"
  unfolding int32_def using assms by (rule signed_take_bit_int_eq_self)

lemma up_mod:
  assumes "0 \<le> i" "i < p" "p \<le> 2 ^ 30"
  shows "up i p = (i - 1 + p) mod p"
proof -
  have "int32 (i - 1) = i - 1" using assms by (intro int32_id) simp_all
  moreover have "int32 (i - 1 + p) = i - 1 + p" using assms by (intro int32_id) simp_all
  ultimately have "up i p = (i - 1 + p) smod p" by (simp add: up_def)
  also have "\<dots> = (i - 1 + p) mod p" using assms by (intro smod_nonneg) simp_all
  finally show ?thesis .
qed

lemma down_mod:
  assumes "0 \<le> i" "i < p" "p \<le> 2 ^ 30"
  shows "down i p = (i + 1) mod p"
proof -
  have "int32 (i + 1) = i + 1" using assms by (intro int32_id) simp_all
  then have "down i p = (i + 1) smod p" by (simp add: down_def)
  also have "\<dots> = (i + 1) mod p" using assms by (intro smod_nonneg) simp_all
  finally show ?thesis .
qed

lemma up_eq:
  assumes "0 \<le> i" "i < p" "p \<le> 2 ^ 30"
  shows "up i p = (if i = 0 then p - 1 else i - 1)"
proof (cases "i = 0")
  case True
  have "(p - 1) mod p = p - 1" using assms True by (intro mod_pos_pos_trivial) simp_all
  then have "(i - 1 + p) mod p = p - 1" using True by (simp add: add.commute)
  moreover have "up i p = (i - 1 + p) mod p" using assms by (rule up_mod)
  ultimately show ?thesis using True by simp
next
  case False
  then have "(i - 1 + p) mod p = i - 1" using assms by simp
  moreover have "up i p = (i - 1 + p) mod p" using assms by (rule up_mod)
  ultimately show ?thesis using False by simp
qed

lemma down_eq:
  assumes "0 \<le> i" "i < p" "p \<le> 2 ^ 30"
  shows "down i p = (if i + 1 = p then 0 else i + 1)"
proof -
  have "down i p = (i + 1) mod p" using assms by (rule down_mod)
  then show ?thesis using assms(1,2) by simp
qed

lemma up_range:
  assumes "0 \<le> i" "i < p" "p \<le> 2 ^ 30"
  shows "0 \<le> up i p \<and> up i p < p"
  unfolding up_eq [OF assms] using assms(1,2) by simp

lemma down_range:
  assumes "0 \<le> i" "i < p" "p \<le> 2 ^ 30"
  shows "0 \<le> down i p \<and> down i p < p"
  unfolding down_eq [OF assms] using assms(1,2) by simp

lemma up_down:
  assumes "0 \<le> i" "i < p" "p \<le> 2 ^ 30"
  shows "up (down i p) p = i"
proof -
  have r: "0 \<le> down i p" "down i p < p" using down_range [OF assms] by simp_all
  show ?thesis
    unfolding up_eq [OF r assms(3)] unfolding down_eq [OF assms] using assms(1,2) by simp
qed

lemma down_up:
  assumes "0 \<le> i" "i < p" "p \<le> 2 ^ 30"
  shows "down (up i p) p = i"
proof -
  have r: "0 \<le> up i p" "up i p < p" using up_range [OF assms] by simp_all
  show ?thesis
    unfolding down_eq [OF r assms(3)] unfolding up_eq [OF assms] using assms(1,2) by simp
qed

lemma down_iterate:
  assumes "0 \<le> i" "i < p" "p \<le> 2 ^ 30"
  shows "((\<lambda>j. down j p) ^^ k) i = (i + int k) mod p"
proof (induction k)
  case 0
  show ?case using assms(1,2) by simp
next
  case (Suc k)
  have r: "0 \<le> (i + int k) mod p" "(i + int k) mod p < p" using assms(1,2) by simp_all
  have "((\<lambda>j. down j p) ^^ Suc k) i = down ((i + int k) mod p) p"
    using Suc.IH by simp
  also have "\<dots> = ((i + int k) mod p + 1) mod p" using r assms(3) by (rule down_mod)
  also have "\<dots> = (i + int k + 1) mod p" by (rule mod_add_left_eq)
  also have "i + int k + 1 = i + int (Suc k)" by simp
  finally show ?case .
qed

lemma down_bij:
  assumes "1 \<le> p" "p \<le> 2 ^ 30"
  shows "bij_betw (\<lambda>j. down j p) {0..<p} {0..<p}"
proof (rule bij_betw_byWitness [where f' = "\<lambda>j. up j p"])
  show "\<forall>a\<in>{0..<p}. up (down a p) p = a" using assms(2) by (simp add: up_down)
  show "\<forall>a'\<in>{0..<p}. down (up a' p) p = a'" using assms(2) by (simp add: down_up)
  show "(\<lambda>j. down j p) ` {0..<p} \<subseteq> {0..<p}" using down_range assms(2) by auto
  show "(\<lambda>j. up j p) ` {0..<p} \<subseteq> {0..<p}" using up_range assms(2) by auto
qed

text \<open>
  C6. For \<open>p\<close> ranks, \<open>1 \<le> p \<le> 2 ^ 30\<close> (the sizes for which the \<open>int\<close> sum
  \<open>rank - 1 + size\<close> of line 176 is defined for every rank), and a rank \<open>i\<close> of the
  communicator, \<open>up\<close> is \<open>(i - 1 + p) mod p\<close> and \<open>down\<close> is \<open>(i + 1) mod p\<close>; \<open>down\<close> is a
  permutation of \<open>0 .. p - 1\<close>; following it \<open>p\<close> times from \<open>i\<close> comes back to \<open>i\<close>, and
  no fewer steps do, so the ranks form one cycle; for \<open>p = 1\<close> the rank is its own
  neighbour on both sides.
\<close>

theorem ring_neighbours:
  assumes "1 \<le> p" "p \<le> 2 ^ 30" "0 \<le> i" "i < p"
  shows "up i p = (i - 1 + p) mod p \<and> down i p = (i + 1) mod p
       \<and> bij_betw (\<lambda>j. down j p) {0..<p} {0..<p}
       \<and> ((\<lambda>j. down j p) ^^ nat p) i = i
       \<and> (\<forall>k. 0 < k \<and> k < nat p \<longrightarrow> ((\<lambda>j. down j p) ^^ k) i \<noteq> i)
       \<and> (p = 1 \<longrightarrow> up i p = i \<and> down i p = i)"
proof -
  note ip = assms(3,4,2)
  have a: "up i p = (i - 1 + p) mod p" using ip by (rule up_mod)
  have b: "down i p = (i + 1) mod p" using ip by (rule down_mod)
  have c: "bij_betw (\<lambda>j. down j p) {0..<p} {0..<p}" using assms(1,2) by (rule down_bij)
  have d: "((\<lambda>j. down j p) ^^ nat p) i = i"
    unfolding down_iterate [OF ip] using assms(1,3,4) by simp
  have e: "((\<lambda>j. down j p) ^^ k) i \<noteq> i" if "0 < k" "k < nat p" for k
  proof
    assume "((\<lambda>j. down j p) ^^ k) i = i"
    then have "(i + int k) mod p = i" unfolding down_iterate [OF ip] .
    then have "(i + int k) mod p = i mod p" using assms(3,4) by simp
    then have "p dvd (i + int k) - i" by (simp add: mod_eq_dvd_iff)
    then have "p dvd int k" by simp
    then have "p \<le> int k" using that(1) by (intro zdvd_imp_le) simp_all
    then show False using that(2) by simp
  qed
  have f: "p = 1 \<longrightarrow> up i p = i \<and> down i p = i"
    unfolding up_eq [OF ip] down_eq [OF ip] using assms(3,4) by simp
  show ?thesis using a b c d e f by blast
qed

theorem ring_neighbours_witness:
  "(1::int) \<le> 4 \<and> (4::int) \<le> 2 ^ 30 \<and> (0::int) \<le> 0 \<and> (0::int) < 4
   \<and> up 0 4 = 3 \<and> down 0 4 = 1 \<and> ((\<lambda>j. down j 4) ^^ nat 4) 0 = 0"
proof -
  have h: "(1::int) \<le> 4" "(4::int) \<le> 2 ^ 30" "(0::int) \<le> 0" "(0::int) < 4" by simp_all
  have "up 0 4 = (0 - 1 + 4) mod (4::int)" "down 0 4 = (0 + 1) mod (4::int)"
    "((\<lambda>j. down j 4) ^^ nat 4) 0 = 0"
    using ring_neighbours [OF h] by blast+
  then show ?thesis by simp
qed

section \<open>The halo exchange\<close>

lemma partition_rank_size:
  "rank (compute_partition sd i sz) = i" "size' (compute_partition sd i sz) = sz"
  by (simp_all add: compute_partition_def Let_def)

text \<open>
  The convention of lines 187-202 between ranks that are in the loop. For a rank \<open>i\<close> of
  \<open>sz \<le> 2 ^ 30\<close> ranks that owns rows: when its lower neighbour owns rows, exactly one of
  the requests that neighbour posts matches the send of \<open>i\<close>'s bottom owned row, the
  receive into row 0 (its top halo) from \<open>i\<close> with tag 0; when its upper neighbour owns
  rows, exactly one of the requests that neighbour posts matches the send of \<open>i\<close>'s top
  owned row, the receive into row \<open>local_rows + 1\<close> (its bottom halo) from \<open>i\<close> with
  tag 1.
\<close>

lemma halo_exchange_matches:
  fixes sd :: SimulationData
  assumes "1 \<le> sz" "sz \<le> 2 ^ 30" "0 \<le> i" "i < sz"
    and "part w = compute_partition sd i sz" "local_rows (part w) \<noteq> 0"
  shows "MPI_Isend (local_rows (part w)) (down i sz) 0 \<in> set (posted w)"
    and "MPI_Isend 1 (up i sz) 1 \<in> set (posted w)"
    and "part wd = compute_partition sd (down i sz) sz \<Longrightarrow> local_rows (part wd) \<noteq> 0 \<Longrightarrow>
           filter (matches i (MPI_Isend (local_rows (part w)) (down i sz) 0) (down i sz))
             (posted wd) = [MPI_Irecv 0 i 0]"
    and "part wu = compute_partition sd (up i sz) sz \<Longrightarrow> local_rows (part wu) \<noteq> 0 \<Longrightarrow>
           filter (matches i (MPI_Isend 1 (up i sz) 1) (up i sz))
             (posted wu) = [MPI_Irecv (local_rows (part wu) + 1) i 1]"
proof -
  note ip = assms(3,4,2)
  have ud: "up (down i sz) sz = i" using ip by (rule up_down)
  have du: "down (up i sz) sz = i" using ip by (rule down_up)
  show "MPI_Isend (local_rows (part w)) (down i sz) 0 \<in> set (posted w)"
    using assms(6) by (simp add: posted_def halo_requests_def assms(5) partition_rank_size)
  show "MPI_Isend 1 (up i sz) 1 \<in> set (posted w)"
    using assms(6) by (simp add: posted_def halo_requests_def assms(5) partition_rank_size)
  show "filter (matches i (MPI_Isend (local_rows (part w)) (down i sz) 0) (down i sz))
             (posted wd) = [MPI_Irecv 0 i 0]"
    if "part wd = compute_partition sd (down i sz) sz" "local_rows (part wd) \<noteq> 0"
    using that(2) by (simp add: posted_def halo_requests_def that(1) partition_rank_size ud)
  show "filter (matches i (MPI_Isend 1 (up i sz) 1) (up i sz))
             (posted wu) = [MPI_Irecv (local_rows (part wu) + 1) i 1]"
    if "part wu = compute_partition sd (up i sz) sz" "local_rows (part wu) \<noteq> 0"
    using that(2) by (simp add: posted_def halo_requests_def that(1) partition_rank_size du)
qed

text \<open>
  C7. The claim is for every worker, and fails where a neighbour owns no row. With
  \<open>grid_size = 2\<close> and four ranks the requests that the four ranks post are those below:
  rank 1 sends its bottom owned row to \<open>down 1 = 2\<close> with tag 0 and rank 0 sends its top
  owned row to \<open>up 0 = 3\<close> with tag 1, but ranks 2 and 3 own no row, have left \<open>main\<close> at
  lines 116-123 and post no receive, so no request of the neighbour matches either send.
  Between ranks 0 and 1 the two ends agree: the bottom row of rank 0 is matched by the
  row-0 receive of rank 1 alone, and the top row of rank 1 by the row-2 receive of rank 0
  alone.
\<close>

theorem halo_send_to_exited_rank:
  "map_option (map posted) (start_all (default_SimulationData\<lparr>grid_size := 2\<rparr>) no_draws 4)
     = Some [[MPI_Irecv 0 3 0, MPI_Irecv 2 1 1, MPI_Isend 1 1 0, MPI_Isend 1 3 1],
             [MPI_Irecv 0 0 0, MPI_Irecv 2 2 1, MPI_Isend 1 2 0, MPI_Isend 1 0 1],
             [], []]
   \<and> down 1 4 = 2 \<and> up 0 4 = 3
   \<and> filter (matches 1 (MPI_Isend 1 2 0) 2) [] = []
   \<and> filter (matches 0 (MPI_Isend 1 3 1) 3) [] = []
   \<and> filter (matches 0 (MPI_Isend 1 1 0) 1)
        [MPI_Irecv 0 0 0, MPI_Irecv 2 2 1, MPI_Isend 1 2 0, MPI_Isend 1 0 1]
      = [MPI_Irecv 0 0 0]
   \<and> filter (matches 1 (MPI_Isend 1 0 1) 0)
        [MPI_Irecv 0 3 0, MPI_Irecv 2 1 1, MPI_Isend 1 1 0, MPI_Isend 1 3 1]
      = [MPI_Irecv 2 1 1]"
proof -
  have world:
    "map_option (map posted) (start_all (default_SimulationData\<lparr>grid_size := 2\<rparr>) no_draws 4)
     = Some [[MPI_Irecv 0 3 0, MPI_Irecv 2 1 1, MPI_Isend 1 1 0, MPI_Isend 1 3 1],
             [MPI_Irecv 0 0 0, MPI_Irecv 2 2 1, MPI_Isend 1 2 0, MPI_Isend 1 0 1],
             [], []]"
    by code_simp
  have nb: "down 1 4 = 2" "up 0 4 = 3"
    by (simp_all add: up_def down_def int32_def smod_int_alt_def)
  show ?thesis using world nb by simp
qed

text \<open>
  C4. With \<open>grid_size = 2\<close> and four ranks, ranks 2 and 3 own no row and leave \<open>main\<close>
  with \<open>EXIT_SUCCESS\<close> after \<open>MPI_Barrier\<close>, having posted no receive and no send. Ranks 0
  and 1 own one row each, but their neighbours are computed modulo 4: the upper neighbour
  of rank 0 is rank 3 and the lower neighbour of rank 1 is rank 2, both of which have
  left, so the receives that ranks 0 and 1 post from them are never matched and the first
  generation of the four ranks does not complete.
\<close>

theorem degenerate_ranks_are_neighbours:
  "local_rows (compute_partition (default_SimulationData\<lparr>grid_size := 2\<rparr>) 2 4) = 0
   \<and> local_rows (compute_partition (default_SimulationData\<lparr>grid_size := 2\<rparr>) 3 4) = 0
   \<and> main_calls 2 (default_SimulationData\<lparr>grid_size := 2\<rparr>) 2 4
       = ([MPI_Init, MPI_Barrier, MPI_Finalize], EXIT_SUCCESS)
   \<and> main_calls 2 (default_SimulationData\<lparr>grid_size := 2\<rparr>) 3 4
       = ([MPI_Init, MPI_Barrier, MPI_Finalize], EXIT_SUCCESS)
   \<and> local_rows (compute_partition (default_SimulationData\<lparr>grid_size := 2\<rparr>) 0 4) = 1
   \<and> local_rows (compute_partition (default_SimulationData\<lparr>grid_size := 2\<rparr>) 1 4) = 1
   \<and> up 0 4 = 3 \<and> down 1 4 = 2
   \<and> halo_requests (compute_partition (default_SimulationData\<lparr>grid_size := 2\<rparr>) 0 4)
       = [MPI_Irecv 0 3 0, MPI_Irecv 2 1 1, MPI_Isend 1 1 0, MPI_Isend 1 3 1]
   \<and> halo_requests (compute_partition (default_SimulationData\<lparr>grid_size := 2\<rparr>) 1 4)
       = [MPI_Irecv 0 0 0, MPI_Irecv 2 2 1, MPI_Isend 1 2 0, MPI_Isend 1 0 1]
   \<and> start_all (default_SimulationData\<lparr>grid_size := 2\<rparr>) no_draws 4 \<noteq> None
   \<and> Option.bind (start_all (default_SimulationData\<lparr>grid_size := 2\<rparr>) no_draws 4)
         (generation (default_SimulationData\<lparr>grid_size := 2\<rparr>)) = None"
proof -
  have calls:
   "local_rows (compute_partition (default_SimulationData\<lparr>grid_size := 2\<rparr>) 2 4) = 0
   \<and> local_rows (compute_partition (default_SimulationData\<lparr>grid_size := 2\<rparr>) 3 4) = 0
   \<and> main_calls 2 (default_SimulationData\<lparr>grid_size := 2\<rparr>) 2 4
       = ([MPI_Init, MPI_Barrier, MPI_Finalize], EXIT_SUCCESS)
   \<and> main_calls 2 (default_SimulationData\<lparr>grid_size := 2\<rparr>) 3 4
       = ([MPI_Init, MPI_Barrier, MPI_Finalize], EXIT_SUCCESS)
   \<and> local_rows (compute_partition (default_SimulationData\<lparr>grid_size := 2\<rparr>) 0 4) = 1
   \<and> local_rows (compute_partition (default_SimulationData\<lparr>grid_size := 2\<rparr>) 1 4) = 1
   \<and> up 0 4 = 3 \<and> down 1 4 = 2
   \<and> halo_requests (compute_partition (default_SimulationData\<lparr>grid_size := 2\<rparr>) 0 4)
       = [MPI_Irecv 0 3 0, MPI_Irecv 2 1 1, MPI_Isend 1 1 0, MPI_Isend 1 3 1]
   \<and> halo_requests (compute_partition (default_SimulationData\<lparr>grid_size := 2\<rparr>) 1 4)
       = [MPI_Irecv 0 0 0, MPI_Irecv 2 2 1, MPI_Isend 1 2 0, MPI_Isend 1 0 1]"
    by (simp add: compute_partition_def default_SimulationData_def static_cast_usize_def
        main_calls_def halo_requests_def up_def down_def int32_def smod_int_alt_def Let_def)
  have started: "start_all (default_SimulationData\<lparr>grid_size := 2\<rparr>) no_draws 4 \<noteq> None"
    by code_simp
  have blocked: "Option.bind (start_all (default_SimulationData\<lparr>grid_size := 2\<rparr>) no_draws 4)
         (generation (default_SimulationData\<lparr>grid_size := 2\<rparr>)) = None"
    by code_simp
  show ?thesis using calls started blocked by blast
qed

section \<open>Grid storage\<close>

lemma offset_less:
  assumes "r < rows" "c < cols"
  shows "mdspan_offset cols r c < rows * cols"
proof -
  have "r * cols + c < r * cols + cols" using assms(2) by simp
  also have "\<dots> = Suc r * cols" by simp
  also have "\<dots> \<le> rows * cols" using assms(1) by (intro mult_le_mono1) simp
  finally show ?thesis by (simp add: mdspan_offset_def)
qed

lemma offset_eq_iff:
  assumes "c < cols" "c' < cols"
  shows "mdspan_offset cols r c = mdspan_offset cols r' c' \<longleftrightarrow> r = r' \<and> c = c'"
proof
  assume eq: "mdspan_offset cols r c = mdspan_offset cols r' c'"
  have "(r * cols + c) div cols = r" "(r' * cols + c') div cols = r'"
    using assms by simp_all
  then have "r = r'" using eq by (simp add: mdspan_offset_def)
  then show "r = r' \<and> c = c'" using eq by (simp add: mdspan_offset_def)
qed simp

lemma mdspan_write_Some:
  assumes "r < rows" "c < cols" "length buf = rows * cols"
  shows "mdspan_write rows cols buf r c v = Some (buf[mdspan_offset cols r c := v])"
  using assms offset_less [OF assms(1,2)] by (simp add: mdspan_write_def in_extents_def)

lemma mdspan_read_Some:
  assumes "r < rows" "c < cols" "length buf = rows * cols"
  shows "mdspan_read rows cols buf r c = Some (buf ! mdspan_offset cols r c)"
  using assms offset_less [OF assms(1,2)] by (simp add: mdspan_read_def in_extents_def)

lemma write_all_None:
  assumes "\<not> (\<forall>(r, c, v) \<in> set ws. in_extents rows cols r c)"
  shows "write_all rows cols ws buf = None"
  using assms
proof (induction ws arbitrary: buf)
  case Nil
  then show ?case by simp
next
  case (Cons w ws)
  obtain r c v where w: "w = (r, c, v)" by (cases w)
  show ?case
  proof (cases "in_extents rows cols r c")
    case True
    then have "\<not> (\<forall>(r, c, v) \<in> set ws. in_extents rows cols r c)"
      using Cons.prems w by simp
    then have "\<And>b. write_all rows cols ws b = None" by (rule Cons.IH)
    then show ?thesis by (simp add: w split: option.split)
  next
    case False
    then show ?thesis by (simp add: w mdspan_write_def)
  qed
qed

lemma write_all_Some:
  assumes "\<forall>(r, c, v) \<in> set ws. in_extents rows cols r c" "length buf = rows * cols"
  shows "\<exists>g. write_all rows cols ws buf = Some g \<and> length g = rows * cols \<and>
           (\<forall>r c. r < rows \<longrightarrow> c < cols \<longrightarrow>
              g ! mdspan_offset cols r c =
                (case map_of (map (\<lambda>(r, c, v). ((r, c), v)) (rev ws)) (r, c) of
                   Some v \<Rightarrow> v
                 | None \<Rightarrow> buf ! mdspan_offset cols r c))"
  using assms
proof (induction ws arbitrary: buf)
  case Nil
  then show ?case by simp
next
  case (Cons w ws)
  obtain r0 c0 v0 where w: "w = (r0, c0, v0)" by (cases w)
  have in0: "r0 < rows" "c0 < cols" using Cons.prems(1) w by (simp_all add: in_extents_def)
  let ?b = "buf[mdspan_offset cols r0 c0 := v0]"
  have step: "write_all rows cols (w # ws) buf = write_all rows cols ws ?b"
    using in0 Cons.prems(2) by (simp add: w mdspan_write_Some)
  have "\<forall>(r, c, v) \<in> set ws. in_extents rows cols r c" using Cons.prems(1) by simp
  moreover have "length ?b = rows * cols" using Cons.prems(2) by simp
  ultimately obtain g where g: "write_all rows cols ws ?b = Some g" "length g = rows * cols"
    and cells: "\<And>r c. r < rows \<Longrightarrow> c < cols \<Longrightarrow>
              g ! mdspan_offset cols r c =
                (case map_of (map (\<lambda>(r, c, v). ((r, c), v)) (rev ws)) (r, c) of
                   Some v \<Rightarrow> v
                 | None \<Rightarrow> ?b ! mdspan_offset cols r c)"
    using Cons.IH [of ?b] by blast
  have "g ! mdspan_offset cols r c =
          (case map_of (map (\<lambda>(r, c, v). ((r, c), v)) (rev (w # ws))) (r, c) of
             Some v \<Rightarrow> v
           | None \<Rightarrow> buf ! mdspan_offset cols r c)"
    if rc: "r < rows" "c < cols" for r c
  proof -
    have lt: "mdspan_offset cols r0 c0 < length buf"
      using offset_less [OF in0] Cons.prems(2) by simp
    have upd: "?b ! mdspan_offset cols r c =
                 (if (r, c) = (r0, c0) then v0 else buf ! mdspan_offset cols r c)"
      using lt offset_eq_iff [OF in0(2) rc(2), of r0 r]
      by (auto simp: nth_list_update)
    show ?thesis
      using cells [OF rc] upd
      by (simp add: w map_add_def split: option.split)
  qed
  then show ?case using step g by simp
qed

lemma spec_local_rows_le:
  assumes "0 < p"
  shows "spec_local_rows n p r \<le> n"
proof (cases "r < n mod p")
  case True
  have "1 * (n div p) \<le> p * (n div p)" using assms by (intro mult_le_mono1) simp
  moreover have "p * (n div p) + n mod p = n" by simp
  ultimately have "n div p + 1 \<le> n" using True by linarith
  then show ?thesis using True by (simp add: spec_local_rows_def)
next
  case False
  have "n div p \<le> n" by (rule div_le_dividend)
  then show ?thesis using False by (simp add: spec_local_rows_def)
qed

lemma buffer_dims:
  fixes sd :: SimulationData
  assumes "0 \<le> rnk" "rnk < sz" "sz \<le> INT_MAX" "uint (grid_size sd) \<le> INT_MAX"
  defines "p \<equiv> compute_partition sd rnk sz"
  shows "unat (local_rows p) \<le> unat (grid_size sd)"
    and "unat (rows_with_halo p) = unat (local_rows p) + 2"
    and "length (allocate sd p) = (unat (local_rows p) + 2) * unat (grid_size sd)"
proof -
  let ?n = "unat (grid_size sd)" and ?lr = "unat (local_rows p)"
  have "?lr = spec_local_rows ?n (nat sz) (nat rnk)"
    unfolding p_def using assms(1-3) by (rule partition_nat(1))
  moreover have "0 < nat sz" using assms(1,2) by simp
  ultimately show le: "?lr \<le> ?n" by (simp add: spec_local_rows_le)
  have "uint (grid_size sd) < 2147483648" using assms(4) by (simp add: INT_MAX_def)
  then have "nat (uint (grid_size sd)) < 2147483648" by linarith
  moreover have "?n = nat (uint (grid_size sd))" by (rule unat_eq_nat_uint)
  ultimately have n: "?n < 2147483648" by linarith
  have "?lr + unat (2 :: usize) < 2 ^ 64" using le n by simp
  then have "unat (local_rows p + 2) = ?lr + unat (2 :: usize)"
    by (simp add: unat_add_lem [THEN iffD1])
  then show rows: "unat (rows_with_halo p) = ?lr + 2" by (simp add: rows_with_halo_def)
  have "(?lr + 2) * ?n \<le> (2147483648 + 2) * 2147483648"
    using le n by (intro mult_mono) simp_all
  then have "unat (rows_with_halo p) * ?n < 2 ^ 64" unfolding rows by simp
  then have "unat (rows_with_halo p * grid_size sd) = unat (rows_with_halo p) * ?n"
    using unat_mult_lem [of "rows_with_halo p" "grid_size sd"] by simp
  then show "length (allocate sd p) = (?lr + 2) * ?n"
    unfolding rows by (simp add: allocate_def)
qed

lemma glider_cells:
  "set (map (\<lambda>(r, c, v). (r, c)) glider_writes) = {1..3} \<times> {0..2}"
proof -
  have "{1..3::nat} = {1, 2, 3}" "{0..2::nat} = {0, 1, 2}" by auto
  then show ?thesis by (auto simp: glider_writes_def)
qed

lemma glider_in_extents:
  "(\<forall>(r, c, v) \<in> set glider_writes. in_extents (lr + 2) n r c) \<longleftrightarrow> 2 \<le> lr \<and> 3 \<le> n"
  by (auto simp: glider_writes_def in_extents_def)

lemma glider_write_all:
  assumes "2 \<le> lr" "3 \<le> n" "length buf = (lr + 2) * n"
  shows "\<exists>g. write_all (lr + 2) n glider_writes buf = Some g \<and> length g = (lr + 2) * n \<and>
           (\<forall>r c. r < lr + 2 \<longrightarrow> c < n \<longrightarrow>
              g ! mdspan_offset n r c =
                (if (r, c) \<in> {(1, 1), (2, 2), (3, 0), (3, 1), (3, 2)} then 1
                 else if (r, c) \<in> {(1, 0), (1, 2), (2, 0), (2, 1)} then 0
                 else buf ! mdspan_offset n r c))"
proof -
  have "\<forall>(r, c, v) \<in> set glider_writes. in_extents (lr + 2) n r c"
    using assms(1,2) glider_in_extents [of lr n] by blast
  then obtain g where g: "write_all (lr + 2) n glider_writes buf = Some g"
      "length g = (lr + 2) * n"
    and cells: "\<And>r c. r < lr + 2 \<Longrightarrow> c < n \<Longrightarrow>
              g ! mdspan_offset n r c =
                (case map_of (map (\<lambda>(r, c, v). ((r, c), v)) (rev glider_writes)) (r, c) of
                   Some v \<Rightarrow> v
                 | None \<Rightarrow> buf ! mdspan_offset n r c)"
    using write_all_Some [OF _ assms(3)] by blast
  have "g ! mdspan_offset n r c =
                (if (r, c) \<in> {(1, 1), (2, 2), (3, 0), (3, 1), (3, 2)} then 1
                 else if (r, c) \<in> {(1, 0), (1, 2), (2, 0), (2, 1)} then 0
                 else buf ! mdspan_offset n r c)"
    if "r < lr + 2" "c < n" for r c
    unfolding cells [OF that] by (simp add: glider_writes_def)
  then show ?thesis using g by blast
qed

lemma initialize_glider:
  assumes "id_type sd = glider_id"
  shows "initialize sd p draws grid =
           write_all (unat (rows_with_halo p)) (unat (grid_size sd)) glider_writes grid"
  using assms by (simp add: initialize_def Let_def)

text \<open>
  C10, as claimed: the accesses are within bounds if and only if \<open>local_rows \<ge> 2\<close>. This
  fails for \<open>grid_size = 2\<close> on a single rank: the rank owns two rows, yet column 2 is not
  a column of its 4 by 2 buffer, and the write to row 3, column 2 is at offset 8 of a
  vector of 8 cells.
\<close>

theorem glider_bounds_counterexample:
  "unat (local_rows (compute_partition (glider_config 2) 0 1)) = 2
   \<and> (1, 2, 0) \<in> set glider_writes
   \<and> \<not> in_extents (unat (rows_with_halo (compute_partition (glider_config 2) 0 1)))
          (unat (grid_size (glider_config 2))) 1 2
   \<and> (3, 2, 1) \<in> set glider_writes
   \<and> length (allocate (glider_config 2) (compute_partition (glider_config 2) 0 1))
        \<le> mdspan_offset (unat (grid_size (glider_config 2))) 3 2
   \<and> initialize (glider_config 2) (compute_partition (glider_config 2) 0 1) no_draws
        (allocate (glider_config 2) (compute_partition (glider_config 2) 0 1)) = None"
  by (simp add: glider_config_def default_SimulationData_def compute_partition_def
      static_cast_usize_def Let_def glider_writes_def in_extents_def rows_with_halo_def
      allocate_def mdspan_offset_def initialize_def mdspan_write_def)

text \<open>
  C10, amended. The glider initialisation accesses exactly rows 1 to 3 and columns 0 to 2
  of the rank's \<open>(local_rows + 2)\<close> by \<open>grid_size\<close> buffer; the accesses are all within
  bounds if and only if \<open>local_rows \<ge> 2\<close> and \<open>grid_size \<ge> 3\<close>; for a rank with
  \<open>local_rows = 1\<close> the writes to row 3 are behind the end of the vector.
\<close>

theorem glider_accesses_bounds:
  fixes sd :: SimulationData
  assumes "0 \<le> rnk" "rnk < sz" "sz \<le> INT_MAX" "uint (grid_size sd) \<le> INT_MAX"
    and "id_type sd = glider_id"
  shows "set (map (\<lambda>(r, c, v). (r, c)) glider_writes) = {1..3} \<times> {0..2}
       \<and> ((\<forall>(r, c, v) \<in> set glider_writes.
              in_extents (unat (rows_with_halo (compute_partition sd rnk sz)))
                (unat (grid_size sd)) r c)
            \<longleftrightarrow> 2 \<le> unat (local_rows (compute_partition sd rnk sz)) \<and> 3 \<le> unat (grid_size sd))
       \<and> (initialize sd (compute_partition sd rnk sz) draws
              (allocate sd (compute_partition sd rnk sz)) \<noteq> None
            \<longleftrightarrow> 2 \<le> unat (local_rows (compute_partition sd rnk sz)) \<and> 3 \<le> unat (grid_size sd))
       \<and> (unat (local_rows (compute_partition sd rnk sz)) = 1 \<longrightarrow>
            (\<forall>c. length (allocate sd (compute_partition sd rnk sz))
                   \<le> mdspan_offset (unat (grid_size sd)) 3 c))"
proof -
  let ?p = "compute_partition sd rnk sz"
  let ?lr = "unat (local_rows ?p)" and ?n = "unat (grid_size sd)"
  have rows: "unat (rows_with_halo ?p) = ?lr + 2"
    using assms(1-4) by (rule buffer_dims(2))
  have len: "length (allocate sd ?p) = (?lr + 2) * ?n"
    using assms(1-4) by (rule buffer_dims(3))
  have ext: "(\<forall>(r, c, v) \<in> set glider_writes. in_extents (unat (rows_with_halo ?p)) ?n r c)
            \<longleftrightarrow> 2 \<le> ?lr \<and> 3 \<le> ?n"
    unfolding rows by (rule glider_in_extents)
  have init: "initialize sd ?p draws (allocate sd ?p) =
                write_all (?lr + 2) ?n glider_writes (allocate sd ?p)"
    using assms(5) by (simp add: initialize_glider rows)
  have ok: "initialize sd ?p draws (allocate sd ?p) \<noteq> None \<longleftrightarrow> 2 \<le> ?lr \<and> 3 \<le> ?n"
  proof (cases "2 \<le> ?lr \<and> 3 \<le> ?n")
    case True
    then have "\<exists>g. write_all (?lr + 2) ?n glider_writes (allocate sd ?p) = Some g"
      using glider_write_all [OF _ _ len] by blast
    then show ?thesis using True init by auto
  next
    case False
    then have "\<not> (\<forall>(r, c, v) \<in> set glider_writes. in_extents (?lr + 2) ?n r c)"
      using glider_in_extents [of ?lr ?n] by blast
    then have "write_all (?lr + 2) ?n glider_writes (allocate sd ?p) = None"
      by (rule write_all_None)
    then show ?thesis using False init by simp
  qed
  have row3: "length (allocate sd ?p) \<le> mdspan_offset ?n 3 c" if "?lr = 1" for c
    using that len by (simp add: mdspan_offset_def)
  show ?thesis using glider_cells ext ok row3 by blast
qed

theorem glider_accesses_bounds_witness:
  "(0::int) \<le> 0 \<and> (0::int) < 2 \<and> 2 \<le> INT_MAX \<and> uint (grid_size (glider_config 8)) \<le> INT_MAX
   \<and> id_type (glider_config 8) = glider_id
   \<and> 2 \<le> unat (local_rows (compute_partition (glider_config 8) 0 2))
   \<and> initialize (glider_config 8) (compute_partition (glider_config 8) 0 2) no_draws
        (allocate (glider_config 8) (compute_partition (glider_config 8) 0 2)) \<noteq> None"
proof -
  have h: "(0::int) \<le> 0" "(0::int) < 2" "2 \<le> INT_MAX"
    "uint (grid_size (glider_config 8)) \<le> INT_MAX" "id_type (glider_config 8) = glider_id"
    by (simp_all add: INT_MAX_def glider_config_def default_SimulationData_def)
  have lr: "unat (local_rows (compute_partition (glider_config 8) 0 2)) = 4"
    by (simp add: glider_config_def default_SimulationData_def compute_partition_def
        static_cast_usize_def Let_def)
  have n: "unat (grid_size (glider_config 8)) = 8"
    by (simp add: glider_config_def default_SimulationData_def)
  have "initialize (glider_config 8) (compute_partition (glider_config 8) 0 2) no_draws
          (allocate (glider_config 8) (compute_partition (glider_config 8) 0 2)) \<noteq> None
        \<longleftrightarrow> 2 \<le> unat (local_rows (compute_partition (glider_config 8) 0 2))
            \<and> 3 \<le> unat (grid_size (glider_config 8))"
    using glider_accesses_bounds [OF h, of no_draws] by blast
  then show ?thesis using h lr n by simp
qed

text \<open>
  C5, as claimed: only the rank whose \<open>row_offset\<close> is 0 receives the mask. This fails for
  rank 1 of two ranks on a grid of size 8: its \<open>row_offset\<close> is 4, and its buffer holds the
  mask in its owned rows after initialisation.
\<close>

theorem glider_first_worker_counterexample:
  "row_offset (compute_partition (glider_config 8) 1 2) = 4
   \<and> initialize (glider_config 8) (compute_partition (glider_config 8) 1 2) no_draws
        (allocate (glider_config 8) (compute_partition (glider_config 8) 1 2))
      = Some [0, 0, 0, 0, 0, 0, 0, 0,
              0, 1, 0, 0, 0, 0, 0, 0,
              0, 0, 1, 0, 0, 0, 0, 0,
              1, 1, 1, 0, 0, 0, 0, 0,
              0, 0, 0, 0, 0, 0, 0, 0,
              0, 0, 0, 0, 0, 0, 0, 0]"
  by code_simp

text \<open>
  C5, amended. When the selector is glider, every rank that owns at least two rows of a
  grid of at least three columns writes the mask into rows 1 to 3, columns 0 to 2 of its
  own buffer, whatever its \<open>row_offset\<close>; every other cell of its buffer, the halo rows
  included, is still zero after the initialisation.
\<close>

theorem glider_written_by_every_rank:
  fixes sd :: SimulationData
  assumes "0 \<le> rnk" "rnk < sz" "sz \<le> INT_MAX" "uint (grid_size sd) \<le> INT_MAX"
    and "id_type sd = glider_id"
    and "2 \<le> unat (local_rows (compute_partition sd rnk sz))" "3 \<le> unat (grid_size sd)"
  shows "\<exists>g. initialize sd (compute_partition sd rnk sz) draws
               (allocate sd (compute_partition sd rnk sz)) = Some g
           \<and> length g = (unat (local_rows (compute_partition sd rnk sz)) + 2) * unat (grid_size sd)
           \<and> (\<forall>r c. r < unat (local_rows (compute_partition sd rnk sz)) + 2 \<longrightarrow>
                  c < unat (grid_size sd) \<longrightarrow>
                  g ! mdspan_offset (unat (grid_size sd)) r c =
                    (if (r, c) \<in> {(1, 1), (2, 2), (3, 0), (3, 1), (3, 2)} then 1 else 0))"
proof -
  let ?p = "compute_partition sd rnk sz"
  let ?lr = "unat (local_rows ?p)" and ?n = "unat (grid_size sd)"
  have rows: "unat (rows_with_halo ?p) = ?lr + 2"
    using assms(1-4) by (rule buffer_dims(2))
  have len: "length (allocate sd ?p) = (?lr + 2) * ?n"
    using assms(1-4) by (rule buffer_dims(3))
  have init: "initialize sd ?p draws (allocate sd ?p) =
                write_all (?lr + 2) ?n glider_writes (allocate sd ?p)"
    using assms(5) by (simp add: initialize_glider rows)
  obtain g where g: "write_all (?lr + 2) ?n glider_writes (allocate sd ?p) = Some g"
      "length g = (?lr + 2) * ?n"
    and cells: "\<And>r c. r < ?lr + 2 \<Longrightarrow> c < ?n \<Longrightarrow>
              g ! mdspan_offset ?n r c =
                (if (r, c) \<in> {(1, 1), (2, 2), (3, 0), (3, 1), (3, 2)} then 1
                 else if (r, c) \<in> {(1, 0), (1, 2), (2, 0), (2, 1)} then 0
                 else allocate sd ?p ! mdspan_offset ?n r c)"
    using glider_write_all [OF assms(6,7) len] by blast
  have "g ! mdspan_offset ?n r c =
          (if (r, c) \<in> {(1, 1), (2, 2), (3, 0), (3, 1), (3, 2)} then 1 else 0)"
    if rc: "r < ?lr + 2" "c < ?n" for r c
  proof -
    have "mdspan_offset ?n r c < length (allocate sd ?p)"
      unfolding len using rc by (rule offset_less)
    then have "allocate sd ?p ! mdspan_offset ?n r c = 0"
      by (simp add: allocate_def)
    then show ?thesis using cells [OF rc] by simp
  qed
  then show ?thesis using init g by auto
qed

theorem glider_written_by_every_rank_witness:
  "(0::int) \<le> 1 \<and> (1::int) < 2 \<and> 2 \<le> INT_MAX \<and> uint (grid_size (glider_config 8)) \<le> INT_MAX
   \<and> id_type (glider_config 8) = glider_id
   \<and> 2 \<le> unat (local_rows (compute_partition (glider_config 8) 1 2))
   \<and> 3 \<le> unat (grid_size (glider_config 8))
   \<and> (\<exists>g. initialize (glider_config 8) (compute_partition (glider_config 8) 1 2) no_draws
               (allocate (glider_config 8) (compute_partition (glider_config 8) 1 2)) = Some g
          \<and> g ! mdspan_offset (unat (grid_size (glider_config 8))) 1 1 = 1)"
proof -
  have h: "(0::int) \<le> 1" "(1::int) < 2" "2 \<le> INT_MAX"
    "uint (grid_size (glider_config 8)) \<le> INT_MAX" "id_type (glider_config 8) = glider_id"
    "2 \<le> unat (local_rows (compute_partition (glider_config 8) 1 2))"
    "3 \<le> unat (grid_size (glider_config 8))"
    by (simp_all add: INT_MAX_def glider_config_def default_SimulationData_def
        compute_partition_def static_cast_usize_def Let_def)
  obtain g where g: "initialize (glider_config 8) (compute_partition (glider_config 8) 1 2) no_draws
               (allocate (glider_config 8) (compute_partition (glider_config 8) 1 2)) = Some g"
    and cells: "\<And>r c. r < unat (local_rows (compute_partition (glider_config 8) 1 2)) + 2 \<Longrightarrow>
                  c < unat (grid_size (glider_config 8)) \<Longrightarrow>
                  g ! mdspan_offset (unat (grid_size (glider_config 8))) r c =
                    (if (r, c) \<in> {(1, 1), (2, 2), (3, 0), (3, 1), (3, 2)} then 1 else 0)"
    using glider_written_by_every_rank [OF h, of no_draws] by blast
  have "g ! mdspan_offset (unat (grid_size (glider_config 8))) 1 1 = 1"
    using cells [of 1 1] h(6,7) by simp
  then show ?thesis using h g by blast
qed

section \<open>The stencil update\<close>

lemma static_cast_int_small:
  assumes "int x \<le> INT_MAX"
  shows "static_cast_int x = int x"
proof -
  have "int x < 2 ^ 31" "- (2 ^ 31) \<le> int x" using assms by (simp_all add: INT_MAX_def)
  then have "signed_take_bit 31 (int x) = int x" by (intro signed_take_bit_int_eq_self)
  then show ?thesis unfolding static_cast_int_def by (simp add: signed_of_nat)
qed

lemma index_of_int_small:
  assumes "int x \<le> INT_MAX"
  shows "index_of_int (int x) = x"
proof -
  have "x < 2 ^ 64" using assms by (simp add: INT_MAX_def)
  then have "unat (word_of_nat x :: usize) = x" by (simp add: unat_of_nat)
  then show ?thesis
    unfolding index_of_int_def by simp
qed

lemma index_of_int_0: "index_of_int 0 = 0"
  by (simp add: index_of_int_def)

lemma index_of_cast:
  assumes "int x \<le> INT_MAX"
  shows "index_of_int (static_cast_int x) = x"
  using assms by (simp add: static_cast_int_small index_of_int_small)

lemma left_index:
  assumes "c < cols" "int cols \<le> INT_MAX"
  shows "index_of_int (if c = 0 then static_cast_int (cols - 1) else static_cast_int (c - 1))
           = spec_left cols c"
proof -
  have b: "int (cols - 1) \<le> INT_MAX" "int (c - 1) \<le> INT_MAX" using assms by simp_all
  have "index_of_int (static_cast_int (cols - 1)) = cols - 1"
    "index_of_int (static_cast_int (c - 1)) = c - 1"
    by (rule index_of_cast [OF b(1)], rule index_of_cast [OF b(2)])
  then show ?thesis unfolding spec_left_def by simp
qed

lemma right_index:
  assumes "c < cols" "int cols \<le> INT_MAX"
  shows "index_of_int (if c + 1 = cols then 0 else static_cast_int (c + 1)) = spec_right cols c"
proof -
  have "int (c + 1) \<le> INT_MAX" using assms by simp
  then have "index_of_int (static_cast_int (c + 1)) = c + 1"
    by (rule index_of_cast)
  moreover have "c + 1 = cols \<longleftrightarrow> c = cols - 1" using assms(1) by auto
  ultimately show ?thesis unfolding spec_right_def by (simp add: index_of_int_0)
qed

lemma spec_left_less: "c < n \<Longrightarrow> spec_left n c < n"
  by (auto simp: spec_left_def)

lemma spec_right_less: "c < n \<Longrightarrow> spec_right n c < n"
  by (auto simp: spec_right_def)

lemma update_cell_Some:
  assumes "1 \<le> r" "r \<le> lr" "c < cols" "int cols \<le> INT_MAX"
    and "length grid = (lr + 2) * cols"
  shows "update_cell (lr + 2) cols grid r c =
           Some (next_state (cell_at cols grid r c) (neighbour_sum cols grid r c))"
proof -
  have rows: "r - 1 < lr + 2" "r < lr + 2" "r + 1 < lr + 2" using assms(1,2) by simp_all
  have cl: "spec_left cols c < cols" and cr: "spec_right cols c < cols"
    using assms(3) by (simp_all add: spec_left_less spec_right_less)
  note rd = mdspan_read_Some [OF _ _ assms(5)]
  have reads:
    "mdspan_read (lr + 2) cols grid (r - 1) (spec_left cols c) = Some (cell_at cols grid (r - 1) (spec_left cols c))"
    "mdspan_read (lr + 2) cols grid (r - 1) c = Some (cell_at cols grid (r - 1) c)"
    "mdspan_read (lr + 2) cols grid (r - 1) (spec_right cols c) = Some (cell_at cols grid (r - 1) (spec_right cols c))"
    "mdspan_read (lr + 2) cols grid r (spec_left cols c) = Some (cell_at cols grid r (spec_left cols c))"
    "mdspan_read (lr + 2) cols grid r (spec_right cols c) = Some (cell_at cols grid r (spec_right cols c))"
    "mdspan_read (lr + 2) cols grid (r + 1) (spec_left cols c) = Some (cell_at cols grid (r + 1) (spec_left cols c))"
    "mdspan_read (lr + 2) cols grid (r + 1) c = Some (cell_at cols grid (r + 1) c)"
    "mdspan_read (lr + 2) cols grid (r + 1) (spec_right cols c) = Some (cell_at cols grid (r + 1) (spec_right cols c))"
    "mdspan_read (lr + 2) cols grid r c = Some (cell_at cols grid r c)"
    unfolding cell_at_def
    by (rule rd, fact, fact)+
  show ?thesis
    unfolding update_cell_def Let_def left_index [OF assms(3,4)] right_index [OF assms(3,4)]
      reads neighbour_sum_def
    by simp
qed

lemma cell_at_update:
  assumes "r < rows" "c < cols" "r' < rows" "c' < cols" "length buf = rows * cols"
  shows "cell_at cols (buf[mdspan_offset cols r c := v]) r' c' =
           (if r' = r \<and> c' = c then v else cell_at cols buf r' c')"
proof -
  have "mdspan_offset cols r c < length buf"
    using offset_less [OF assms(1,2)] assms(5) by simp
  moreover have "mdspan_offset cols r c = mdspan_offset cols r' c' \<longleftrightarrow> r = r' \<and> c = c'"
    using assms(2,4) by (rule offset_eq_iff)
  ultimately show ?thesis by (auto simp: cell_at_def nth_list_update)
qed

lemma store_cell_Some:
  assumes "1 \<le> r" "r \<le> lr" "c < cols" "int cols \<le> INT_MAX"
    and "length grid = (lr + 2) * cols" "length nxt = (lr + 2) * cols"
  shows "store_cell (lr + 2) cols grid r c nxt =
           Some (nxt[mdspan_offset cols r c :=
                   next_state (cell_at cols grid r c) (neighbour_sum cols grid r c)])"
proof -
  have "r < lr + 2" using assms(2) by simp
  then show ?thesis
    unfolding store_cell_def update_cell_Some [OF assms(1-5)]
    using assms(3,6) by (simp add: mdspan_write_Some)
qed

lemma column_loop:
  assumes "1 \<le> r" "r \<le> lr" "int cols \<le> INT_MAX" "length grid = (lr + 2) * cols"
    and "length nxt = (lr + 2) * cols" "\<forall>c \<in> set cs. c < cols"
  shows "\<exists>nxt'. for_each (store_cell (lr + 2) cols grid r) cs nxt = Some nxt'
           \<and> length nxt' = (lr + 2) * cols
           \<and> (\<forall>r' c'. r' < lr + 2 \<longrightarrow> c' < cols \<longrightarrow>
                 cell_at cols nxt' r' c' =
                   (if r' = r \<and> c' \<in> set cs
                    then next_state (cell_at cols grid r c') (neighbour_sum cols grid r c')
                    else cell_at cols nxt r' c'))"
  using assms(5,6)
proof (induction cs arbitrary: nxt)
  case Nil
  then show ?case by simp
next
  case (Cons c cs)
  let ?v = "next_state (cell_at cols grid r c) (neighbour_sum cols grid r c)"
  let ?b = "nxt[mdspan_offset cols r c := ?v]"
  have c: "c < cols" using Cons.prems(2) by simp
  have r: "r < lr + 2" using assms(2) by simp
  have step: "store_cell (lr + 2) cols grid r c nxt = Some ?b"
    using assms(1,2) c assms(3,4) Cons.prems(1) by (rule store_cell_Some)
  have "length ?b = (lr + 2) * cols" using Cons.prems(1) by simp
  moreover have "\<forall>c \<in> set cs. c < cols" using Cons.prems(2) by simp
  ultimately obtain nxt' where n: "for_each (store_cell (lr + 2) cols grid r) cs ?b = Some nxt'"
      "length nxt' = (lr + 2) * cols"
    and cells: "\<And>r' c'. r' < lr + 2 \<Longrightarrow> c' < cols \<Longrightarrow>
                 cell_at cols nxt' r' c' =
                   (if r' = r \<and> c' \<in> set cs
                    then next_state (cell_at cols grid r c') (neighbour_sum cols grid r c')
                    else cell_at cols ?b r' c')"
    using Cons.IH [of ?b] by blast
  have "cell_at cols nxt' r' c' =
          (if r' = r \<and> c' \<in> set (c # cs)
           then next_state (cell_at cols grid r c') (neighbour_sum cols grid r c')
           else cell_at cols nxt r' c')"
    if rc: "r' < lr + 2" "c' < cols" for r' c'
    unfolding cells [OF rc] cell_at_update [OF r c rc Cons.prems(1)] by auto
  then show ?case using step n by simp
qed

lemma row_loop:
  assumes "int cols \<le> INT_MAX" "length grid = (lr + 2) * cols"
    and "length nxt = (lr + 2) * cols" "\<forall>r \<in> set rs. 1 \<le> r \<and> r \<le> lr"
  shows "\<exists>nxt'. for_each (\<lambda>r. for_each (store_cell (lr + 2) cols grid r) [0..<cols]) rs nxt
                  = Some nxt'
           \<and> length nxt' = (lr + 2) * cols
           \<and> (\<forall>r' c'. r' < lr + 2 \<longrightarrow> c' < cols \<longrightarrow>
                 cell_at cols nxt' r' c' =
                   (if r' \<in> set rs
                    then next_state (cell_at cols grid r' c') (neighbour_sum cols grid r' c')
                    else cell_at cols nxt r' c'))"
  using assms(3,4)
proof (induction rs arbitrary: nxt)
  case Nil
  then show ?case by simp
next
  case (Cons r rs)
  have r: "1 \<le> r" "r \<le> lr" using Cons.prems(2) by simp_all
  have "\<forall>c \<in> set [0..<cols]. c < cols" by simp
  then obtain b where b: "for_each (store_cell (lr + 2) cols grid r) [0..<cols] nxt = Some b"
      "length b = (lr + 2) * cols"
    and bcells: "\<And>r' c'. r' < lr + 2 \<Longrightarrow> c' < cols \<Longrightarrow>
                 cell_at cols b r' c' =
                   (if r' = r \<and> c' \<in> set [0..<cols]
                    then next_state (cell_at cols grid r c') (neighbour_sum cols grid r c')
                    else cell_at cols nxt r' c')"
    using column_loop [OF r assms(1,2) Cons.prems(1)] by blast
  have "\<forall>r \<in> set rs. 1 \<le> r \<and> r \<le> lr" using Cons.prems(2) by simp
  then obtain nxt' where n:
      "for_each (\<lambda>r. for_each (store_cell (lr + 2) cols grid r) [0..<cols]) rs b = Some nxt'"
      "length nxt' = (lr + 2) * cols"
    and cells: "\<And>r' c'. r' < lr + 2 \<Longrightarrow> c' < cols \<Longrightarrow>
                 cell_at cols nxt' r' c' =
                   (if r' \<in> set rs
                    then next_state (cell_at cols grid r' c') (neighbour_sum cols grid r' c')
                    else cell_at cols b r' c')"
    using Cons.IH [OF b(2)] by blast
  have "cell_at cols nxt' r' c' =
          (if r' \<in> set (r # rs)
           then next_state (cell_at cols grid r' c') (neighbour_sum cols grid r' c')
           else cell_at cols nxt r' c')"
    if rc: "r' < lr + 2" "c' < cols" for r' c'
    unfolding cells [OF rc] bcells [OF rc] using rc(2) by auto
  then show ?case using b(1) n by simp
qed

lemma stencil_update_result:
  assumes "int cols \<le> INT_MAX" "length grid = (lr + 2) * cols" "length nxt = (lr + 2) * cols"
  shows "\<exists>nxt'. stencil_update lr cols grid nxt = Some nxt'
           \<and> length nxt' = (lr + 2) * cols
           \<and> (\<forall>r c. r < lr + 2 \<longrightarrow> c < cols \<longrightarrow>
                 cell_at cols nxt' r c =
                   (if 1 \<le> r \<and> r \<le> lr
                    then next_state (cell_at cols grid r c) (neighbour_sum cols grid r c)
                    else cell_at cols nxt r c))"
proof -
  have "\<forall>r \<in> set [1..<lr + 1]. 1 \<le> r \<and> r \<le> lr" by auto
  then obtain nxt' where n:
      "for_each (\<lambda>r. for_each (store_cell (lr + 2) cols grid r) [0..<cols]) [1..<lr + 1] nxt
         = Some nxt'"
      "length nxt' = (lr + 2) * cols"
    and cells: "\<And>r c. r < lr + 2 \<Longrightarrow> c < cols \<Longrightarrow>
                 cell_at cols nxt' r c =
                   (if r \<in> set [1..<lr + 1]
                    then next_state (cell_at cols grid r c) (neighbour_sum cols grid r c)
                    else cell_at cols nxt r c)"
    using row_loop [OF assms] by blast
  have "cell_at cols nxt' r c =
          (if 1 \<le> r \<and> r \<le> lr
           then next_state (cell_at cols grid r c) (neighbour_sum cols grid r c)
           else cell_at cols nxt r c)"
    if rc: "r < lr + 2" "c < cols" for r c
    unfolding cells [OF rc] by auto
  then show ?thesis using n unfolding stencil_update_def by blast
qed

lemma next_state_cases:
  "(cur = 1 \<longrightarrow> (next_state cur s = 1 \<longleftrightarrow> s = 2 \<or> s = 3))
   \<and> (cur = 0 \<longrightarrow> (next_state cur s = 1 \<longleftrightarrow> s = 3))
   \<and> (next_state cur s \<noteq> 1 \<longrightarrow> next_state cur s = 0)"
  by (simp add: next_state_def)

text \<open>
  C1. The stencil update is defined on buffers of \<open>local_rows + 2\<close> rows of \<open>n\<close> cells
  (\<open>n\<close> an \<open>int\<close>, as the code casts it), and for every owned cell, row \<open>r\<close> in
  \<open>1 .. local_rows\<close> and column \<open>c\<close> in \<open>0 .. n - 1\<close>, the cell it writes into the next buffer
  is determined by the sum of the eight neighbours in the current buffer, with the left
  neighbour column \<open>n - 1\<close> for \<open>c = 0\<close> and the right one 0 for \<open>c = n - 1\<close>: a cell in
  state 1 becomes 1 iff the sum is 2 or 3, a cell in state 0 becomes 1 iff the sum is 3,
  and the cell written is 0 whenever it is not 1.
\<close>

theorem stencil_update_rule:
  assumes "int n \<le> INT_MAX" "length grid = (lr + 2) * n" "length nxt = (lr + 2) * n"
  shows "\<exists>nxt'. stencil_update lr n grid nxt = Some nxt'
           \<and> (\<forall>r c. 1 \<le> r \<and> r \<le> lr \<and> c < n \<longrightarrow>
                 cell_at n nxt' r c = next_state (cell_at n grid r c) (neighbour_sum n grid r c)
                 \<and> (cell_at n grid r c = 1 \<longrightarrow>
                      (cell_at n nxt' r c = 1
                         \<longleftrightarrow> neighbour_sum n grid r c = 2 \<or> neighbour_sum n grid r c = 3))
                 \<and> (cell_at n grid r c = 0 \<longrightarrow>
                      (cell_at n nxt' r c = 1 \<longleftrightarrow> neighbour_sum n grid r c = 3))
                 \<and> (cell_at n nxt' r c \<noteq> 1 \<longrightarrow> cell_at n nxt' r c = 0))"
proof -
  obtain nxt' where n: "stencil_update lr n grid nxt = Some nxt'"
    and cells: "\<And>r c. r < lr + 2 \<Longrightarrow> c < n \<Longrightarrow>
                 cell_at n nxt' r c =
                   (if 1 \<le> r \<and> r \<le> lr
                    then next_state (cell_at n grid r c) (neighbour_sum n grid r c)
                    else cell_at n nxt r c)"
    using stencil_update_result [OF assms] by blast
  have "\<forall>r c. 1 \<le> r \<and> r \<le> lr \<and> c < n \<longrightarrow>
                 cell_at n nxt' r c = next_state (cell_at n grid r c) (neighbour_sum n grid r c)
                 \<and> (cell_at n grid r c = 1 \<longrightarrow>
                      (cell_at n nxt' r c = 1
                         \<longleftrightarrow> neighbour_sum n grid r c = 2 \<or> neighbour_sum n grid r c = 3))
                 \<and> (cell_at n grid r c = 0 \<longrightarrow>
                      (cell_at n nxt' r c = 1 \<longleftrightarrow> neighbour_sum n grid r c = 3))
                 \<and> (cell_at n nxt' r c \<noteq> 1 \<longrightarrow> cell_at n nxt' r c = 0)"
  proof (intro allI impI)
    fix r c
    assume a: "1 \<le> r \<and> r \<le> lr \<and> c < n"
    have eq: "cell_at n nxt' r c = next_state (cell_at n grid r c) (neighbour_sum n grid r c)"
      using cells [of r c] a by simp
    show "cell_at n nxt' r c = next_state (cell_at n grid r c) (neighbour_sum n grid r c)
                 \<and> (cell_at n grid r c = 1 \<longrightarrow>
                      (cell_at n nxt' r c = 1
                         \<longleftrightarrow> neighbour_sum n grid r c = 2 \<or> neighbour_sum n grid r c = 3))
                 \<and> (cell_at n grid r c = 0 \<longrightarrow>
                      (cell_at n nxt' r c = 1 \<longleftrightarrow> neighbour_sum n grid r c = 3))
                 \<and> (cell_at n nxt' r c \<noteq> 1 \<longrightarrow> cell_at n nxt' r c = 0)"
      unfolding eq
      using next_state_cases [of "cell_at n grid r c" "neighbour_sum n grid r c"] by blast
  qed
  then show ?thesis using n by blast
qed

theorem stencil_update_rule_witness:
  "int 3 \<le> INT_MAX \<and> length (grid_buf example_worker) = (1 + 2) * 3
   \<and> length (next_buf example_worker) = (1 + 2) * 3
   \<and> cell_at 3 (grid_buf example_worker) 1 0 = 0
   \<and> neighbour_sum 3 (grid_buf example_worker) 1 0 = 3
   \<and> (\<exists>nxt'. stencil_update 1 3 (grid_buf example_worker) (next_buf example_worker) = Some nxt'
          \<and> cell_at 3 nxt' 1 0 = 1)"
proof -
  have h: "int 3 \<le> INT_MAX" "length (grid_buf example_worker) = (1 + 2) * 3"
    "length (next_buf example_worker) = (1 + 2) * 3"
    by (simp_all add: INT_MAX_def example_worker_def)
  have cur: "cell_at 3 (grid_buf example_worker) 1 0 = 0"
    by (simp add: example_worker_def cell_at_def mdspan_offset_def)
  have s: "neighbour_sum 3 (grid_buf example_worker) 1 0 = 3"
    by (simp add: example_worker_def neighbour_sum_def cell_at_def mdspan_offset_def
        spec_left_def spec_right_def)
  obtain nxt' where n:
      "stencil_update 1 3 (grid_buf example_worker) (next_buf example_worker) = Some nxt'"
    and rule: "\<And>r c. 1 \<le> r \<and> r \<le> 1 \<and> c < 3 \<Longrightarrow>
      cell_at 3 (grid_buf example_worker) r c = 0 \<longrightarrow>
      (cell_at 3 nxt' r c = 1 \<longleftrightarrow> neighbour_sum 3 (grid_buf example_worker) r c = 3)"
    using stencil_update_rule [OF h] by blast
  have "cell_at 3 nxt' 1 0 = 1" using rule [of 1 0] cur s by simp
  then show ?thesis using h cur s n by blast
qed

text \<open>
  C9. The compute phase of a generation returns a worker whose current buffer is the
  one it started with, and whose next buffer has the same length and the same two halo
  rows (row 0 and row \<open>local_rows + 1\<close>) as before: only the owned rows of the next
  buffer are written.
\<close>

theorem compute_phase_frame:
  fixes sd :: SimulationData
  assumes "uint (grid_size sd) \<le> INT_MAX"
    and "length (grid_buf w) = (unat (local_rows (part w)) + 2) * unat (grid_size sd)"
    and "length (next_buf w) = (unat (local_rows (part w)) + 2) * unat (grid_size sd)"
  shows "\<exists>w'. compute_phase sd w = Some w'
           \<and> grid_buf w' = grid_buf w \<and> part w' = part w
           \<and> length (next_buf w') = length (next_buf w)
           \<and> (\<forall>c < unat (grid_size sd).
                 cell_at (unat (grid_size sd)) (next_buf w') 0 c =
                   cell_at (unat (grid_size sd)) (next_buf w) 0 c
               \<and> cell_at (unat (grid_size sd)) (next_buf w') (unat (local_rows (part w)) + 1) c =
                   cell_at (unat (grid_size sd)) (next_buf w) (unat (local_rows (part w)) + 1) c)"
proof -
  let ?n = "unat (grid_size sd)" and ?lr = "unat (local_rows (part w))"
  have n: "int ?n \<le> INT_MAX" using assms(1) by simp
  obtain nxt' where s: "stencil_update ?lr ?n (grid_buf w) (next_buf w) = Some nxt'"
      "length nxt' = (?lr + 2) * ?n"
    and cells: "\<And>r c. r < ?lr + 2 \<Longrightarrow> c < ?n \<Longrightarrow>
                 cell_at ?n nxt' r c =
                   (if 1 \<le> r \<and> r \<le> ?lr
                    then next_state (cell_at ?n (grid_buf w) r c)
                           (neighbour_sum ?n (grid_buf w) r c)
                    else cell_at ?n (next_buf w) r c)"
    using stencil_update_result [OF n assms(2,3)] by blast
  have w': "compute_phase sd w = Some (w\<lparr>next_buf := nxt'\<rparr>)"
    by (simp add: compute_phase_def s(1))
  have top: "cell_at ?n nxt' 0 c = cell_at ?n (next_buf w) 0 c" if "c < ?n" for c
    using cells [of 0 c] that by simp
  have bottom: "cell_at ?n nxt' (?lr + 1) c = cell_at ?n (next_buf w) (?lr + 1) c"
    if "c < ?n" for c
    using cells [of "?lr + 1" c] that by simp
  show ?thesis using w' s(2) assms(3) top bottom by simp
qed

theorem compute_phase_frame_witness:
  "uint (grid_size (default_SimulationData\<lparr>grid_size := 3\<rparr>)) \<le> INT_MAX
   \<and> length (grid_buf example_worker) =
       (unat (local_rows (part example_worker)) + 2)
         * unat (grid_size (default_SimulationData\<lparr>grid_size := 3\<rparr>))
   \<and> length (next_buf example_worker) =
       (unat (local_rows (part example_worker)) + 2)
         * unat (grid_size (default_SimulationData\<lparr>grid_size := 3\<rparr>))
   \<and> (\<exists>w'. compute_phase (default_SimulationData\<lparr>grid_size := 3\<rparr>) example_worker = Some w'
          \<and> grid_buf w' = grid_buf example_worker
          \<and> cell_at 3 (next_buf w') 0 0 = 7 \<and> cell_at 3 (next_buf w') 2 0 = 9)"
proof -
  let ?sd = "default_SimulationData\<lparr>grid_size := 3\<rparr>"
  have lr: "unat (local_rows (part example_worker)) = 1"
    by (simp add: example_worker_def compute_partition_def static_cast_usize_def Let_def)
  have n: "unat (grid_size ?sd) = 3" by simp
  have h: "uint (grid_size ?sd) \<le> INT_MAX"
    "length (grid_buf example_worker) = (unat (local_rows (part example_worker)) + 2) * unat (grid_size ?sd)"
    "length (next_buf example_worker) = (unat (local_rows (part example_worker)) + 2) * unat (grid_size ?sd)"
    unfolding lr by (simp_all add: INT_MAX_def example_worker_def)
  obtain w' where w': "compute_phase ?sd example_worker = Some w'"
      "grid_buf w' = grid_buf example_worker"
    and halo: "\<forall>c < unat (grid_size ?sd).
                 cell_at (unat (grid_size ?sd)) (next_buf w') 0 c =
                   cell_at (unat (grid_size ?sd)) (next_buf example_worker) 0 c
               \<and> cell_at (unat (grid_size ?sd)) (next_buf w')
                    (unat (local_rows (part example_worker)) + 1) c =
                   cell_at (unat (grid_size ?sd)) (next_buf example_worker)
                    (unat (local_rows (part example_worker)) + 1) c"
    using compute_phase_frame [OF h] by blast
  have "cell_at 3 (next_buf w') 0 0 = cell_at 3 (next_buf example_worker) 0 0"
    "cell_at 3 (next_buf w') 2 0 = cell_at 3 (next_buf example_worker) 2 0"
    using halo [rule_format, of 0] unfolding lr n by (simp_all add: numeral_2_eq_2)
  then have "cell_at 3 (next_buf w') 0 0 = 7 \<and> cell_at 3 (next_buf w') 2 0 = 9"
    by (simp add: example_worker_def cell_at_def mdspan_offset_def)
  then show ?thesis using h w' by blast
qed

section \<open>A glider on a single rank\<close>

text \<open>
  The four phases of the glider under the periodic rule, for every grid size from 5 on:
  the cells are split into the rows and columns 0 to 4 and the rest, where the pattern
  is dead.
\<close>

lemma far_row: "4 \<le> q \<Longrightarrow> pattern (glider_phase k) q c = 0"
  by (simp add: pattern_def glider_phase_def)

lemma far_col: "4 \<le> c \<Longrightarrow> pattern (glider_phase k) q c = 0"
  by (auto simp add: pattern_def glider_phase_def)

lemma small_or_large: "r = 0 \<or> r = 1 \<or> r = 2 \<or> r = 3 \<or> r = 4 \<or> 5 \<le> r" for r :: nat
  by arith

lemma glider_step0:
  assumes "5 \<le> n" "r < n" "c < n"
  shows "life_step n (pattern (glider_phase 0)) r c = pattern (glider_phase 1) r c"
  using small_or_large [of r] small_or_large [of c] assms
  apply (elim disjE)
  apply (simp_all add: life_step_def torus_sum_def spec_left_def spec_right_def far_row far_col)
  apply (simp_all add: pattern_def glider_phase_def next_state_def)
  done

lemma glider_step1:
  assumes "5 \<le> n" "r < n" "c < n"
  shows "life_step n (pattern (glider_phase 1)) r c = pattern (glider_phase 2) r c"
  using small_or_large [of r] small_or_large [of c] assms
  apply (elim disjE)
  apply (simp_all add: life_step_def torus_sum_def spec_left_def spec_right_def far_row far_col)
  apply (simp_all add: pattern_def glider_phase_def next_state_def)
  done

lemma glider_step2:
  assumes "5 \<le> n" "r < n" "c < n"
  shows "life_step n (pattern (glider_phase 2)) r c = pattern (glider_phase 3) r c"
  using small_or_large [of r] small_or_large [of c] assms
  apply (elim disjE)
  apply (simp_all add: life_step_def torus_sum_def spec_left_def spec_right_def far_row far_col)
  apply (simp_all add: pattern_def glider_phase_def next_state_def)
  done

lemma glider_step3:
  assumes "5 \<le> n" "r < n" "c < n"
  shows "life_step n (pattern (glider_phase 3)) r c = pattern (glider_phase 4) r c"
  using small_or_large [of r] small_or_large [of c] assms
  apply (elim disjE)
  apply (simp_all add: life_step_def torus_sum_def spec_left_def spec_right_def far_row far_col)
  apply (simp_all add: pattern_def glider_phase_def next_state_def)
  done

lemma glider_step:
  assumes "5 \<le> n" "r < n" "c < n" "k < 4"
  shows "life_step n (pattern (glider_phase k)) r c = pattern (glider_phase (Suc k)) r c"
proof -
  have "k = 0 \<or> k = 1 \<or> k = 2 \<or> k = 3" using assms(4) by arith
  then show ?thesis
    using glider_step0 [OF assms(1-3)] glider_step1 [OF assms(1-3)]
      glider_step2 [OF assms(1-3)] glider_step3 [OF assms(1-3)]
    by (auto simp: numeral_2_eq_2 numeral_3_eq_3 eval_nat_numeral)
qed

lemma life_step_cong:
  assumes "\<And>r c. r < n \<Longrightarrow> c < n \<Longrightarrow> f r c = g r c" "r < n" "c < n"
  shows "life_step n f r c = life_step n g r c"
proof -
  have l: "spec_left n r < n" "spec_left n c < n" and rt: "spec_right n r < n" "spec_right n c < n"
    using assms(2,3) by (simp_all add: spec_left_less spec_right_less)
  show ?thesis
    unfolding life_step_def torus_sum_def
    by (simp add: assms l rt)
qed

lemma glider_shift:
  "pattern (glider_phase 4) r c =
     (if 1 \<le> r \<and> 1 \<le> c then pattern (glider_phase 0) (r - 1) (c - 1) else 0)"
  by (auto simp: pattern_def glider_phase_def)

subsection \<open>One pass of the loop on a single rank\<close>

text \<open>
  A single rank is its own neighbour on both sides: the exchange copies its last owned
  row into its top halo and its first owned row into its bottom halo, and the stencil
  update is then one generation of the periodic rule on the owned cells.
\<close>

lemma single_partition:
  "compute_partition sd 0 1 = \<lparr>rank = 0, size' = 1, local_rows = grid_size sd, row_offset = 0\<rparr>"
  by (simp add: compute_partition_def static_cast_usize_def Let_def)

lemma single_neighbours: "up 0 1 = 0" "down 0 1 = 0"
  by (simp_all add: up_def down_def int32_def smod_int_alt_def)

lemma grid_size_bound:
  fixes sd :: SimulationData
  assumes "uint (grid_size sd) \<le> INT_MAX"
  shows "unat (grid_size sd) < 2147483648" "int (unat (grid_size sd)) \<le> INT_MAX"
proof -
  have "uint (grid_size sd) < 2147483648" using assms by (simp add: INT_MAX_def)
  moreover have "unat (grid_size sd) = nat (uint (grid_size sd))" by (rule unat_eq_nat_uint)
  ultimately show "unat (grid_size sd) < 2147483648" by linarith
  show "int (unat (grid_size sd)) \<le> INT_MAX" using assms by simp
qed

lemma message_count_eq:
  fixes sd :: SimulationData
  assumes "uint (grid_size sd) \<le> INT_MAX"
  shows "message_count sd = unat (grid_size sd)"
  unfolding message_count_def
  using static_cast_int_small [OF grid_size_bound(2) [OF assms]] by simp

lemma row_ptr_eq:
  fixes sd :: SimulationData
  assumes "uint (grid_size sd) \<le> INT_MAX" "unat r \<le> unat (grid_size sd) + 1"
  shows "row_ptr sd r = unat r * unat (grid_size sd)"
proof -
  let ?n = "unat (grid_size sd)"
  have n: "?n < 2147483648" using assms(1) by (rule grid_size_bound(1))
  have "unat r * ?n \<le> 2147483648 * 2147483648"
    using assms(2) n by (intro mult_mono) simp_all
  then have "unat r * ?n < 2 ^ 64" by simp
  then show ?thesis
    unfolding row_ptr_def using unat_mult_lem [of r "grid_size sd"] by simp
qed

lemma unat_grid_size_Suc:
  fixes sd :: SimulationData
  assumes "uint (grid_size sd) \<le> INT_MAX"
  shows "unat (grid_size sd + 1) = unat (grid_size sd) + 1"
proof -
  have "unat (grid_size sd) + unat (1 :: usize) < 2 ^ 64"
    using grid_size_bound(1) [OF assms] by simp
  then show ?thesis using unat_add_lem [of "grid_size sd" 1] by simp
qed

lemma read_row_cells:
  fixes sd :: SimulationData
  assumes "row_ptr sd r = k * unat (grid_size sd)" "message_count sd = unat (grid_size sd)"
    and "(k + 1) * unat (grid_size sd) \<le> length buf"
  shows "\<exists>cells. read_row sd buf r = Some cells \<and> length cells = unat (grid_size sd)
           \<and> (\<forall>c < unat (grid_size sd). cells ! c = cell_at (unat (grid_size sd)) buf k c)"
proof -
  let ?n = "unat (grid_size sd)"
  let ?cells = "take ?n (drop (k * ?n) buf)"
  have le: "k * ?n + ?n \<le> length buf" using assms(3) by simp
  then have rd: "read_row sd buf r = Some ?cells"
    by (simp add: read_row_def assms(1,2))
  have len: "length ?cells = ?n" using le by simp
  have "?cells ! c = cell_at ?n buf k c" if "c < ?n" for c
    using that le by (simp add: cell_at_def mdspan_offset_def)
  then show ?thesis using rd len by blast
qed

lemma write_row_cells:
  fixes sd :: SimulationData
  assumes "row_ptr sd r = k * unat (grid_size sd)" "message_count sd = unat (grid_size sd)"
    and "length buf = rows * unat (grid_size sd)" "k < rows"
    and "length cells = unat (grid_size sd)"
  shows "\<exists>b. write_row sd buf r cells = Some b \<and> length b = rows * unat (grid_size sd)
           \<and> (\<forall>r' c. r' < rows \<longrightarrow> c < unat (grid_size sd) \<longrightarrow>
                 cell_at (unat (grid_size sd)) b r' c =
                   (if r' = k then cells ! c else cell_at (unat (grid_size sd)) buf r' c))"
proof -
  let ?n = "unat (grid_size sd)"
  let ?b = "take (k * ?n) buf @ cells @ drop (k * ?n + ?n) buf"
  have "Suc k * ?n \<le> rows * ?n" using assms(4) by (intro mult_le_mono1) simp
  then have le: "k * ?n + ?n \<le> length buf" using assms(3) by simp
  then have wr: "write_row sd buf r cells = Some ?b"
    by (simp add: write_row_def assms(1,2,5))
  have len: "length ?b = rows * ?n" using le assms(3,5) by simp
  have "cell_at ?n ?b r' c = (if r' = k then cells ! c else cell_at ?n buf r' c)"
    if rc: "r' < rows" "c < ?n" for r' c
  proof -
    consider "r' < k" | "r' = k" | "k < r'" by arith
    then show ?thesis
    proof cases
      case 1
      then have "mdspan_offset ?n r' c < k * ?n" using rc(2) by (rule offset_less)
      then show ?thesis using 1 le by (simp add: cell_at_def nth_append)
    next
      case 2
      have "mdspan_offset ?n k c = k * ?n + c" by (simp add: mdspan_offset_def)
      then show ?thesis using 2 le rc(2) assms(5) by (simp add: cell_at_def nth_append)
    next
      case 3
      then have "Suc k * ?n \<le> r' * ?n" by (intro mult_le_mono1) simp
      then have ge: "k * ?n + ?n \<le> r' * ?n + c" by simp
      have lt: "r' * ?n + c < length buf"
        using offset_less [OF rc] assms(3) by (simp add: mdspan_offset_def)
      have l1: "length (take (k * ?n) buf) = k * ?n" using le by simp
      have n1: "\<not> r' * ?n + c < length (take (k * ?n) buf)" unfolding l1 using ge by linarith
      have n2: "\<not> r' * ?n + c - k * ?n < length cells" unfolding assms(5) using ge by linarith
      have "?b ! (r' * ?n + c) = (cells @ drop (k * ?n + ?n) buf) ! (r' * ?n + c - k * ?n)"
        using n1 unfolding nth_append l1 by simp
      also have "\<dots> = drop (k * ?n + ?n) buf ! (r' * ?n + c - k * ?n - ?n)"
        using n2 unfolding nth_append assms(5) by simp
      also have "\<dots> = buf ! (k * ?n + ?n + (r' * ?n + c - k * ?n - ?n))"
        using le by (intro nth_drop) simp
      also have "k * ?n + ?n + (r' * ?n + c - k * ?n - ?n) = r' * ?n + c"
        using ge by linarith
      finally show ?thesis using 3 by (simp add: cell_at_def mdspan_offset_def)
    qed
  qed
  then show ?thesis using wr len by blast
qed

lemma exchange_single:
  fixes sd :: SimulationData
  assumes "1 \<le> unat (grid_size sd)" "uint (grid_size sd) \<le> INT_MAX"
    and "part w = compute_partition sd 0 1"
    and "length (grid_buf w) = (unat (grid_size sd) + 2) * unat (grid_size sd)"
  shows "\<exists>b. exchange_worker sd [w] w = Some (w\<lparr>grid_buf := b\<rparr>)
           \<and> length b = (unat (grid_size sd) + 2) * unat (grid_size sd)
           \<and> (\<forall>r c. r < unat (grid_size sd) + 2 \<longrightarrow> c < unat (grid_size sd) \<longrightarrow>
                 cell_at (unat (grid_size sd)) b r c =
                   (if r = 0 then cell_at (unat (grid_size sd)) (grid_buf w) (unat (grid_size sd)) c
                    else if r = unat (grid_size sd) + 1
                      then cell_at (unat (grid_size sd)) (grid_buf w) 1 c
                    else cell_at (unat (grid_size sd)) (grid_buf w) r c))"
proof -
  let ?n = "unat (grid_size sd)" and ?gs = "grid_size sd" and ?buf = "grid_buf w"
  have gs0: "?gs \<noteq> 0" using assms(1) by (auto simp: unat_eq_zero)
  have mc: "message_count sd = ?n" using assms(2) by (rule message_count_eq)
  have Suc: "unat (?gs + 1) = ?n + 1" using assms(2) by (rule unat_grid_size_Suc)
  have p0: "row_ptr sd 0 = 0 * ?n" by (simp add: row_ptr_def)
  have p1: "row_ptr sd 1 = 1 * ?n" by (simp add: row_ptr_def)
  have pn: "row_ptr sd ?gs = ?n * ?n" using assms(2) by (intro row_ptr_eq) simp_all
  have pn1: "row_ptr sd (?gs + 1) = (?n + 1) * ?n"
    using row_ptr_eq [OF assms(2), of "?gs + 1"] unfolding Suc by simp
  have posted: "posted w =
      [MPI_Irecv 0 0 0, MPI_Irecv (?gs + 1) 0 1, MPI_Isend ?gs 0 0, MPI_Isend 1 0 1]"
    using gs0 by (simp add: posted_def assms(3) single_partition halo_requests_def
        single_neighbours)
  have "(?n + 1) * ?n \<le> length ?buf" using assms(4) by simp
  from read_row_cells [OF pn mc this]
  obtain cells1 where c1: "read_row sd ?buf ?gs = Some cells1" "length cells1 = ?n"
    and c1c: "\<And>c. c < ?n \<Longrightarrow> cells1 ! c = cell_at ?n ?buf ?n c"
    by blast
  have "(1 + 1) * ?n \<le> length ?buf" using assms(4) by simp
  from read_row_cells [OF p1 mc this]
  obtain cells2 where c2: "read_row sd ?buf 1 = Some cells2" "length cells2 = ?n"
    and c2c: "\<And>c. c < ?n \<Longrightarrow> cells2 ! c = cell_at ?n ?buf 1 c"
    by blast
  have "0 < ?n + 2" by simp
  from write_row_cells [OF p0 mc assms(4) this c1(2)]
  obtain b1 where b1: "write_row sd ?buf 0 cells1 = Some b1" "length b1 = (?n + 2) * ?n"
    and b1c: "\<And>r c. r < ?n + 2 \<Longrightarrow> c < ?n \<Longrightarrow>
                 cell_at ?n b1 r c = (if r = 0 then cells1 ! c else cell_at ?n ?buf r c)"
    by blast
  have "?n + 1 < ?n + 2" by simp
  from write_row_cells [OF pn1 mc b1(2) this c2(2)]
  obtain b2 where b2: "write_row sd b1 (?gs + 1) cells2 = Some b2" "length b2 = (?n + 2) * ?n"
    and b2c: "\<And>r c. r < ?n + 2 \<Longrightarrow> c < ?n \<Longrightarrow>
                 cell_at ?n b2 r c = (if r = ?n + 1 then cells2 ! c else cell_at ?n b1 r c)"
    by blast
  have "receive_all sd [w] 0 (posted w) ?buf = Some b2"
    unfolding posted by (simp add: posted c1(1) c2(1) b1(1) b2(1))
  then have ex: "exchange_worker sd [w] w = Some (w\<lparr>grid_buf := b2\<rparr>)"
    by (simp add: exchange_worker_def assms(3) single_partition)
  have "cell_at ?n b2 r c =
          (if r = 0 then cell_at ?n ?buf ?n c
           else if r = ?n + 1 then cell_at ?n ?buf 1 c
           else cell_at ?n ?buf r c)"
    if rc: "r < ?n + 2" "c < ?n" for r c
    unfolding b2c [OF rc] b1c [OF rc] using c1c [OF rc(2)] c2c [OF rc(2)] by simp
  then show ?thesis using ex b2(2) by blast
qed

lemma generation_single:
  fixes sd :: SimulationData
  assumes "1 \<le> unat (grid_size sd)" "uint (grid_size sd) \<le> INT_MAX"
    and "part w = compute_partition sd 0 1"
    and "length (grid_buf w) = (unat (grid_size sd) + 2) * unat (grid_size sd)"
    and "length (next_buf w) = (unat (grid_size sd) + 2) * unat (grid_size sd)"
  shows "\<exists>w'. generation sd [w] = Some [w'] \<and> part w' = compute_partition sd 0 1
           \<and> length (grid_buf w') = (unat (grid_size sd) + 2) * unat (grid_size sd)
           \<and> length (next_buf w') = (unat (grid_size sd) + 2) * unat (grid_size sd)
           \<and> (\<forall>r c. r < unat (grid_size sd) \<longrightarrow> c < unat (grid_size sd) \<longrightarrow>
                 owned_cell sd w' r c = life_step (unat (grid_size sd)) (owned_cell sd w) r c)"
proof -
  let ?n = "unat (grid_size sd)" and ?buf = "grid_buf w"
  have gs0: "grid_size sd \<noteq> 0" using assms(1) by (auto simp: unat_eq_zero)
  have lr: "unat (local_rows (part w)) = ?n" by (simp add: assms(3) single_partition)
  have lr0: "local_rows (part w) \<noteq> 0" using gs0 by (simp add: assms(3) single_partition)
  obtain b where ex: "exchange_worker sd [w] w = Some (w\<lparr>grid_buf := b\<rparr>)"
      and blen: "length b = (?n + 2) * ?n"
      and bc: "\<And>r c. r < ?n + 2 \<Longrightarrow> c < ?n \<Longrightarrow>
                 cell_at ?n b r c =
                   (if r = 0 then cell_at ?n ?buf ?n c
                    else if r = ?n + 1 then cell_at ?n ?buf 1 c
                    else cell_at ?n ?buf r c)"
    using exchange_single [OF assms(1-4)] by blast
  have nb: "int ?n \<le> INT_MAX" using assms(2) by (rule grid_size_bound(2))
  obtain nxt' where st: "stencil_update ?n ?n b (next_buf w) = Some nxt'"
      and nlen: "length nxt' = (?n + 2) * ?n"
      and nc: "\<And>r c. r < ?n + 2 \<Longrightarrow> c < ?n \<Longrightarrow>
                 cell_at ?n nxt' r c =
                   (if 1 \<le> r \<and> r \<le> ?n
                    then next_state (cell_at ?n b r c) (neighbour_sum ?n b r c)
                    else cell_at ?n (next_buf w) r c)"
    using stencil_update_result [OF nb blen assms(5)] by blast
  let ?w' = "\<lparr>part = part w, grid_buf = nxt', next_buf = b\<rparr>"
  have cp: "compute_phase sd (w\<lparr>grid_buf := b\<rparr>) = Some (w\<lparr>grid_buf := b, next_buf := nxt'\<rparr>)"
    by (simp add: compute_phase_def lr st)
  have gw: "generation_worker sd [w] w = Some ?w'"
    using lr0 by (simp add: generation_worker_def ex cp swap_buffers_def)
  have gen: "generation sd [w] = Some [?w']"
    by (simp add: generation_def gw)
  have up: "cell_at ?n b r x = owned_cell sd w (spec_left ?n r) x"
    and mid: "cell_at ?n b (r + 1) x = owned_cell sd w r x"
    and down: "cell_at ?n b (r + 2) x = owned_cell sd w (spec_right ?n r) x"
    if "r < ?n" "x < ?n" for r x
  proof -
    show "cell_at ?n b r x = owned_cell sd w (spec_left ?n r) x"
      using bc [of r x] that assms(1)
      by (auto simp: owned_cell_def cell_at_def spec_left_def)
    show "cell_at ?n b (r + 1) x = owned_cell sd w r x"
      using bc [of "r + 1" x] that by (simp add: owned_cell_def cell_at_def)
    show "cell_at ?n b (r + 2) x = owned_cell sd w (spec_right ?n r) x"
      using bc [of "r + 2" x] that assms(1)
      by (auto simp: owned_cell_def cell_at_def spec_right_def)
  qed
  have "owned_cell sd ?w' r c = life_step ?n (owned_cell sd w) r c"
    if rc: "r < ?n" "c < ?n" for r c
  proof -
    have l: "spec_left ?n c < ?n" and rt: "spec_right ?n c < ?n"
      using rc(2) by (simp_all add: spec_left_less spec_right_less)
    have "owned_cell sd ?w' r c = cell_at ?n nxt' (r + 1) c"
      by (simp add: owned_cell_def cell_at_def)
    also have "\<dots> = next_state (cell_at ?n b (r + 1) c) (neighbour_sum ?n b (r + 1) c)"
      using nc [of "r + 1" c] rc by simp
    also have "neighbour_sum ?n b (r + 1) c = torus_sum ?n (owned_cell sd w) r c"
    proof -
      have s: "r + 1 - 1 = r" "r + 1 + 1 = r + 2" by simp_all
      show ?thesis
        unfolding neighbour_sum_def torus_sum_def s
          up [OF rc(1) l] up [OF rc] up [OF rc(1) rt]
          mid [OF rc(1) l] mid [OF rc(1) rt]
          down [OF rc(1) l] down [OF rc] down [OF rc(1) rt]
        by (rule refl)
    qed
    finally show ?thesis unfolding life_step_def mid [OF rc] .
  qed
  then show ?thesis using gen nlen blen assms(3) by auto
qed

lemma glider_start:
  fixes sd :: SimulationData
  assumes "id_type sd = glider_id" "5 \<le> unat (grid_size sd)" "uint (grid_size sd) \<le> INT_MAX"
  shows "\<exists>w. start_rank sd draws 0 1 = Some w \<and> part w = compute_partition sd 0 1
           \<and> length (grid_buf w) = (unat (grid_size sd) + 2) * unat (grid_size sd)
           \<and> length (next_buf w) = (unat (grid_size sd) + 2) * unat (grid_size sd)
           \<and> (\<forall>r c. r < unat (grid_size sd) \<longrightarrow> c < unat (grid_size sd) \<longrightarrow>
                 owned_cell sd w r c = pattern (glider_phase 0) r c)"
proof -
  let ?n = "unat (grid_size sd)" and ?p = "compute_partition sd 0 1"
  have h: "(0::int) \<le> 0" "(0::int) < 1" "1 \<le> INT_MAX" by (simp_all add: INT_MAX_def)
  have lr: "unat (local_rows ?p) = ?n" by (simp add: single_partition)
  have lr0: "local_rows ?p \<noteq> 0" using assms(2) by (auto simp: single_partition)
  have rows: "unat (rows_with_halo ?p) = ?n + 2"
    using buffer_dims(2) [OF h assms(3)] unfolding lr .
  have len: "length (allocate sd ?p) = (?n + 2) * ?n"
    using buffer_dims(3) [OF h assms(3)] unfolding lr .
  have init: "initialize sd ?p draws (allocate sd ?p) =
                write_all (?n + 2) ?n glider_writes (allocate sd ?p)"
    using assms(1) by (simp add: initialize_glider rows)
  have "2 \<le> ?n" "3 \<le> ?n" using assms(2) by simp_all
  from glider_write_all [OF this len]
  obtain g where g: "write_all (?n + 2) ?n glider_writes (allocate sd ?p) = Some g"
      "length g = (?n + 2) * ?n"
    and cells: "\<And>r c. r < ?n + 2 \<Longrightarrow> c < ?n \<Longrightarrow>
              g ! mdspan_offset ?n r c =
                (if (r, c) \<in> {(1, 1), (2, 2), (3, 0), (3, 1), (3, 2)} then 1
                 else if (r, c) \<in> {(1, 0), (1, 2), (2, 0), (2, 1)} then 0
                 else allocate sd ?p ! mdspan_offset ?n r c)"
    by blast
  let ?w = "\<lparr>part = ?p, grid_buf = g, next_buf = allocate sd ?p\<rparr>"
  have ig: "initialize sd ?p draws (allocate sd ?p) = Some g"
    unfolding init by (rule g(1))
  have st: "start_rank sd draws 0 1 = Some ?w"
    using lr0 by (simp add: start_rank_def Let_def ig)
  have "owned_cell sd ?w r c = pattern (glider_phase 0) r c" if rc: "r < ?n" "c < ?n" for r c
  proof -
    have r1: "r + 1 < ?n + 2" using rc(1) by simp
    have "mdspan_offset ?n (r + 1) c < length (allocate sd ?p)"
      unfolding len using r1 rc(2) by (rule offset_less)
    then have z: "allocate sd ?p ! mdspan_offset ?n (r + 1) c = 0"
      by (simp add: allocate_def)
    show ?thesis
      unfolding owned_cell_def using cells [OF r1 rc(2)] z
      by (auto simp: pattern_def glider_phase_def)
  qed
  then show ?thesis using st g(2) len by auto
qed

lemma run_single:
  fixes sd :: SimulationData
  assumes "5 \<le> unat (grid_size sd)" "uint (grid_size sd) \<le> INT_MAX"
    and "part w = compute_partition sd 0 1"
    and "length (grid_buf w) = (unat (grid_size sd) + 2) * unat (grid_size sd)"
    and "length (next_buf w) = (unat (grid_size sd) + 2) * unat (grid_size sd)"
    and "\<And>r c. r < unat (grid_size sd) \<Longrightarrow> c < unat (grid_size sd) \<Longrightarrow>
            owned_cell sd w r c = pattern (glider_phase k) r c"
    and "k + j \<le> 4"
  shows "\<exists>w'. run sd j [w] = Some [w'] \<and>
           (\<forall>r c. r < unat (grid_size sd) \<longrightarrow> c < unat (grid_size sd) \<longrightarrow>
              owned_cell sd w' r c = pattern (glider_phase (k + j)) r c)"
  using assms(3-7)
proof (induction j arbitrary: w k)
  case 0
  then show ?case by simp
next
  case (Suc j)
  let ?n = "unat (grid_size sd)"
  have n1: "1 \<le> ?n" using assms(1) by simp
  obtain w1 where g: "generation sd [w] = Some [w1]" and p1: "part w1 = compute_partition sd 0 1"
      and l1: "length (grid_buf w1) = (?n + 2) * ?n" "length (next_buf w1) = (?n + 2) * ?n"
      and c1: "\<And>r c. r < ?n \<Longrightarrow> c < ?n \<Longrightarrow>
                 owned_cell sd w1 r c = life_step ?n (owned_cell sd w) r c"
    using generation_single [OF n1 assms(2) Suc.prems(1-3)] by blast
  have k: "k < 4" "Suc k + j \<le> 4" using Suc.prems(5) by simp_all
  have "owned_cell sd w1 r c = pattern (glider_phase (Suc k)) r c"
    if rc: "r < ?n" "c < ?n" for r c
  proof -
    have "owned_cell sd w1 r c = life_step ?n (owned_cell sd w) r c" using rc by (rule c1)
    also have "\<dots> = life_step ?n (pattern (glider_phase k)) r c"
      using Suc.prems(4) rc by (rule life_step_cong)
    also have "\<dots> = pattern (glider_phase (Suc k)) r c"
      using assms(1) rc k(1) by (rule glider_step)
    finally show ?thesis .
  qed
  from Suc.IH [OF p1 l1 this k(2)]
  obtain w' where "run sd j [w1] = Some [w']"
    "\<forall>r c. r < ?n \<longrightarrow> c < ?n \<longrightarrow> owned_cell sd w' r c = pattern (glider_phase (Suc k + j)) r c"
    by blast
  then show ?case using g by simp
qed

text \<open>
  C8. On a single rank with the glider selected and a grid of size at least 5 (and at
  most \<open>INT_MAX\<close>), the owned cells after initialisation are the five cells of the
  glider with every other cell dead, four passes of the loop body (exchange, stencil
  update, swap) are defined, and the owned cells after them are the same shape moved
  down one row and right one column: the cell at \<open>(r, c)\<close> is the initial cell at
  \<open>(r - 1, c - 1)\<close>, and row 0 and column 0 are dead.
\<close>

theorem glider_translates:
  fixes sd :: SimulationData
  assumes "id_type sd = glider_id" "5 \<le> unat (grid_size sd)" "uint (grid_size sd) \<le> INT_MAX"
  shows "\<exists>w0 w4. start_rank sd draws 0 1 = Some w0 \<and> run sd 4 [w0] = Some [w4]
           \<and> (\<forall>r c. r < unat (grid_size sd) \<longrightarrow> c < unat (grid_size sd) \<longrightarrow>
                 owned_cell sd w0 r c =
                   (if (r, c) \<in> {(0, 1), (1, 2), (2, 0), (2, 1), (2, 2)} then 1 else 0))
           \<and> (\<forall>r c. r < unat (grid_size sd) \<longrightarrow> c < unat (grid_size sd) \<longrightarrow>
                 owned_cell sd w4 r c =
                   (if 1 \<le> r \<and> 1 \<le> c then owned_cell sd w0 (r - 1) (c - 1) else 0))"
proof -
  let ?n = "unat (grid_size sd)"
  obtain w0 where s: "start_rank sd draws 0 1 = Some w0" and p: "part w0 = compute_partition sd 0 1"
      and l: "length (grid_buf w0) = (?n + 2) * ?n" "length (next_buf w0) = (?n + 2) * ?n"
      and c0: "\<And>r c. r < ?n \<Longrightarrow> c < ?n \<Longrightarrow> owned_cell sd w0 r c = pattern (glider_phase 0) r c"
    using glider_start [OF assms] by blast
  have "0 + 4 \<le> (4::nat)" by simp
  from run_single [OF assms(2,3) p l c0 this]
  obtain w4 where r: "run sd 4 [w0] = Some [w4]"
    and c4: "\<And>r c. r < ?n \<Longrightarrow> c < ?n \<Longrightarrow> owned_cell sd w4 r c = pattern (glider_phase 4) r c"
    by auto
  have a: "owned_cell sd w0 r c =
             (if (r, c) \<in> {(0, 1), (1, 2), (2, 0), (2, 1), (2, 2)} then 1 else 0)"
    if "r < ?n" "c < ?n" for r c
    unfolding c0 [OF that] by (simp add: pattern_def glider_phase_def)
  have b: "owned_cell sd w4 r c =
             (if 1 \<le> r \<and> 1 \<le> c then owned_cell sd w0 (r - 1) (c - 1) else 0)"
    if rc: "r < ?n" "c < ?n" for r c
  proof -
    have "r - 1 < ?n" "c - 1 < ?n" using rc by simp_all
    then have "owned_cell sd w0 (r - 1) (c - 1) = pattern (glider_phase 0) (r - 1) (c - 1)"
      by (rule c0)
    then show ?thesis unfolding c4 [OF rc] glider_shift by simp
  qed
  show ?thesis using s r a b by blast
qed

theorem glider_translates_witness:
  "id_type (glider_config 6) = glider_id \<and> 5 \<le> unat (grid_size (glider_config 6))
   \<and> uint (grid_size (glider_config 6)) \<le> INT_MAX
   \<and> (\<exists>w0 w4. start_rank (glider_config 6) no_draws 0 1 = Some w0
          \<and> run (glider_config 6) 4 [w0] = Some [w4]
          \<and> owned_cell (glider_config 6) w0 0 1 = 1
          \<and> owned_cell (glider_config 6) w4 1 2 = 1
          \<and> owned_cell (glider_config 6) w4 0 1 = 0)"
proof -
  let ?sd = "glider_config 6"
  have n: "unat (grid_size ?sd) = 6"
    by (simp add: glider_config_def default_SimulationData_def)
  have h: "id_type ?sd = glider_id" "5 \<le> unat (grid_size ?sd)" "uint (grid_size ?sd) \<le> INT_MAX"
    by (simp_all add: glider_config_def default_SimulationData_def INT_MAX_def)
  obtain w0 w4 where s: "start_rank ?sd no_draws 0 1 = Some w0" "run ?sd 4 [w0] = Some [w4]"
    and c0: "\<And>r c. r < 6 \<Longrightarrow> c < 6 \<Longrightarrow> owned_cell ?sd w0 r c =
                   (if (r, c) \<in> {(0, 1), (1, 2), (2, 0), (2, 1), (2, 2)} then 1 else 0)"
    and c4: "\<And>r c. r < 6 \<Longrightarrow> c < 6 \<Longrightarrow> owned_cell ?sd w4 r c =
                   (if 1 \<le> r \<and> 1 \<le> c then owned_cell ?sd w0 (r - 1) (c - 1) else 0)"
    using glider_translates [OF h, of no_draws] unfolding n by blast
  have "owned_cell ?sd w0 0 1 = 1" using c0 [of 0 1] by simp
  moreover have "owned_cell ?sd w4 1 2 = 1" using c4 [of 1 2] c0 [of 0 1] by simp
  moreover have "owned_cell ?sd w4 0 1 = 0" using c4 [of 0 1] by simp
  ultimately show ?thesis using h s by blast
qed

end
